theory Spec2Isabelle
  imports Main "HOL-Library.Word"
begin

section \<open>JavaScript strings\<close>

text \<open>
  A JavaScript string is a sequence of 16-bit code units. The regular expressions of
  \<^verbatim>\<open>extension.ts\<close> carry no \<^verbatim>\<open>u\<close> flag, so they match code unit by code unit.
  \<open>js\<close> writes an ASCII literal as such a sequence. \<open>rx\<close> does the same for the source
  text of a pattern, where \<^verbatim>\<open>%\<close> stands for the backslash, which a string literal of
  this theory cannot hold: \<open>rx ''%s*%.''\<close> is the pattern source \<^verbatim>\<open>\s*\.\<close>.
\<close>

type_synonym jsstring = "16 word list"

definition js :: "string \<Rightarrow> jsstring" where
  "js s = map of_char s"

definition rx :: "string \<Rightarrow> jsstring" where
  "rx s = map (\<lambda>c. if c = CHR ''%'' then 0x5C else of_char c) s"

text \<open>\<^verbatim>\<open>Array.prototype.join("|")\<close>.\<close>

fun join :: "jsstring list \<Rightarrow> jsstring" where
  "join [] = []"
| "join [m] = m"
| "join (m # ms) = m @ 0x7C # join ms"

text \<open>ECMAScript \<^verbatim>\<open>LineTerminator\<close>: LF, CR, LS, PS.\<close>

definition is_line_terminator :: "16 word \<Rightarrow> bool" where
  "is_line_terminator c = (c = 0x0A \<or> c = 0x0D \<or> c = 0x2028 \<or> c = 0x2029)"

text \<open>
  The class \<^verbatim>\<open>\s\<close>, which is also what \<^verbatim>\<open>trimStart\<close> strips: ECMAScript
  \<^verbatim>\<open>WhiteSpace\<close> (TAB, VT, FF, SP, NBSP, ZWNBSP and the space separators) and
  \<^verbatim>\<open>LineTerminator\<close>.
\<close>

definition is_white_space :: "16 word \<Rightarrow> bool" where
  "is_white_space c =
     (c = 0x09 \<or> c = 0x0B \<or> c = 0x0C \<or> c = 0x20 \<or> c = 0xA0 \<or> c = 0x1680
      \<or> (0x2000 \<le> c \<and> c \<le> 0x200A) \<or> c = 0x202F \<or> c = 0x205F \<or> c = 0x3000
      \<or> c = 0xFEFF \<or> is_line_terminator c)"

text \<open>The classes \<^verbatim>\<open>\d\<close> and \<^verbatim>\<open>\w\<close> (no \<^verbatim>\<open>i\<close> and no \<^verbatim>\<open>u\<close> flag), and the ASCII letters.\<close>

definition is_digit :: "16 word \<Rightarrow> bool" where
  "is_digit c = (0x30 \<le> c \<and> c \<le> 0x39)"

definition is_letter :: "16 word \<Rightarrow> bool" where
  "is_letter c = ((0x41 \<le> c \<and> c \<le> 0x5A) \<or> (0x61 \<le> c \<and> c \<le> 0x7A))"

definition is_word_char :: "16 word \<Rightarrow> bool" where
  "is_word_char c = (is_letter c \<or> is_digit c \<or> c = 0x5F)"

section \<open>Regular expressions\<close>

text \<open>
  The patterns of \<^verbatim>\<open>countConsoleLogs\<close> and \<^verbatim>\<open>removeConsoleLogs\<close> are built at run time
  from the configured method names, which are spliced into the pattern source as they
  are; a name is therefore read as pattern syntax. The syntax tree below holds what the
  patterns of the code use and what a name can add with the common syntax characters.
  Capture groups are plain grouping: a pattern with a back-reference is not modelled, and
  no replacement of the code reads a group.
\<close>

datatype item =
    Single "16 word"            \<comment> \<open>one code unit\<close>
  | Range "16 word" "16 word"   \<comment> \<open>\<^verbatim>\<open>a-z\<close>\<close>
  | Space | NotSpace            \<comment> \<open>\<^verbatim>\<open>\s\<close>, \<^verbatim>\<open>\S\<close>\<close>
  | Digit | NotDigit            \<comment> \<open>\<^verbatim>\<open>\d\<close>, \<^verbatim>\<open>\D\<close>\<close>
  | WordChar | NotWordChar      \<comment> \<open>\<^verbatim>\<open>\w\<close>, \<^verbatim>\<open>\W\<close>\<close>

fun in_item :: "item \<Rightarrow> 16 word \<Rightarrow> bool" where
  "in_item (Single a) c = (c = a)"
| "in_item (Range lo hi) c = (lo \<le> c \<and> c \<le> hi)"
| "in_item Space c = is_white_space c"
| "in_item NotSpace c = (\<not> is_white_space c)"
| "in_item Digit c = is_digit c"
| "in_item NotDigit c = (\<not> is_digit c)"
| "in_item WordChar c = is_word_char c"
| "in_item NotWordChar c = (\<not> is_word_char c)"

datatype cls =
    Lit "16 word"           \<comment> \<open>one literal code unit\<close>
  | Esc item                \<comment> \<open>a class escape outside brackets, as \<^verbatim>\<open>\s\<close>\<close>
  | OneOf "item list"       \<comment> \<open>\<^verbatim>\<open>[...]\<close>\<close>
  | NoneOf "item list"      \<comment> \<open>\<^verbatim>\<open>[^...]\<close>\<close>
  | Dot                     \<comment> \<open>\<^verbatim>\<open>.\<close> without the \<^verbatim>\<open>s\<close> flag\<close>
  | AnyUnit                 \<comment> \<open>\<^verbatim>\<open>.\<close> under the \<^verbatim>\<open>s\<close> flag\<close>

fun in_cls :: "cls \<Rightarrow> 16 word \<Rightarrow> bool" where
  "in_cls (Lit a) c = (c = a)"
| "in_cls (Esc i) c = in_item i c"
| "in_cls (OneOf is) c = list_ex (\<lambda>i. in_item i c) is"
| "in_cls (NoneOf is) c = (\<not> list_ex (\<lambda>i. in_item i c) is)"
| "in_cls Dot c = (\<not> is_line_terminator c)"
| "in_cls AnyUnit c = True"

datatype regex =
    Atom cls
  | Empty                   \<comment> \<open>the empty alternative, as in \<^verbatim>\<open>()\<close>\<close>
  | Seq regex regex
  | Alt regex regex         \<comment> \<open>\<^verbatim>\<open>a|b\<close>\<close>
  | Star regex              \<comment> \<open>greedy \<^verbatim>\<open>a*\<close>\<close>
  | Lazy regex              \<comment> \<open>non-greedy \<^verbatim>\<open>a*?\<close>\<close>
  | Opt regex               \<comment> \<open>greedy \<^verbatim>\<open>a?\<close>\<close>
  | LazyOpt regex           \<comment> \<open>non-greedy \<^verbatim>\<open>a??\<close>\<close>
  | Bol                     \<comment> \<open>\<^verbatim>\<open>^\<close> under the \<^verbatim>\<open>m\<close> flag\<close>
  | Eol                     \<comment> \<open>\<^verbatim>\<open>$\<close> under the \<^verbatim>\<open>m\<close> flag\<close>
  | Bos                     \<comment> \<open>\<^verbatim>\<open>^\<close> without the \<^verbatim>\<open>m\<close> flag\<close>
  | Eos                     \<comment> \<open>\<^verbatim>\<open>$\<close> without the \<^verbatim>\<open>m\<close> flag\<close>
  | WordB                   \<comment> \<open>\<^verbatim>\<open>\b\<close>\<close>
  | NotWordB                \<comment> \<open>\<^verbatim>\<open>\B\<close>\<close>
  | Ahead regex             \<comment> \<open>\<^verbatim>\<open>(?=a)\<close>\<close>
  | NotAhead regex          \<comment> \<open>\<^verbatim>\<open>(?!a)\<close>\<close>

text \<open>
  A position in the input is the code unit just before it (\<open>None\<close> at index 0) and the
  input that remains. \<open>matcher r p\<close> lists the positions where a match of \<open>r\<close> that
  starts at \<open>p\<close> can end, in the order in which the backtracking matcher of ECMAScript
  tries them: the first alternative before the second, the longest repetition first for
  a greedy quantifier and the shortest first for a non-greedy one. As in ECMAScript's
  \<^verbatim>\<open>RepeatMatcher\<close>, an iteration of a quantified term that consumes nothing is
  rejected; the test \<open>length (snd q) < length (snd p)\<close> is that check. A lookahead
  succeeds or fails as a whole and consumes nothing.
\<close>

type_synonym pos = "16 word option \<times> jsstring"

definition word_before :: "pos \<Rightarrow> bool" where
  "word_before p = (case fst p of None \<Rightarrow> False | Some c \<Rightarrow> is_word_char c)"

definition word_after :: "pos \<Rightarrow> bool" where
  "word_after p = (case snd p of [] \<Rightarrow> False | x # t \<Rightarrow> is_word_char x)"

function matcher :: "regex \<Rightarrow> pos \<Rightarrow> pos list" where
  "matcher (Atom c) p =
     (case snd p of [] \<Rightarrow> [] | x # t \<Rightarrow> if in_cls c x then [(Some x, t)] else [])"
| "matcher Empty p = [p]"
| "matcher (Seq a b) p = concat (map (matcher b) (matcher a p))"
| "matcher (Alt a b) p = matcher a p @ matcher b p"
| "matcher (Star a) p =
     concat (map (matcher (Star a))
               (filter (\<lambda>q. length (snd q) < length (snd p)) (matcher a p))) @ [p]"
| "matcher (Lazy a) p =
     p # concat (map (matcher (Lazy a))
                   (filter (\<lambda>q. length (snd q) < length (snd p)) (matcher a p)))"
| "matcher (Opt a) p =
     filter (\<lambda>q. length (snd q) < length (snd p)) (matcher a p) @ [p]"
| "matcher (LazyOpt a) p =
     p # filter (\<lambda>q. length (snd q) < length (snd p)) (matcher a p)"
| "matcher Bol p =
     (case fst p of None \<Rightarrow> [p] | Some c \<Rightarrow> if is_line_terminator c then [p] else [])"
| "matcher Eol p =
     (case snd p of [] \<Rightarrow> [p] | x # t \<Rightarrow> if is_line_terminator x then [p] else [])"
| "matcher Bos p = (case fst p of None \<Rightarrow> [p] | Some c \<Rightarrow> [])"
| "matcher Eos p = (case snd p of [] \<Rightarrow> [p] | x # t \<Rightarrow> [])"
| "matcher WordB p = (if word_before p = word_after p then [] else [p])"
| "matcher NotWordB p = (if word_before p = word_after p then [p] else [])"
| "matcher (Ahead a) p = (case matcher a p of [] \<Rightarrow> [] | q # qs \<Rightarrow> [p])"
| "matcher (NotAhead a) p = (case matcher a p of [] \<Rightarrow> [p] | q # qs \<Rightarrow> [])"
  by pat_completeness auto
termination
  by (relation "measures [\<lambda>(r, p). size r, \<lambda>(r, p). length (snd p)]") auto

text \<open>A sequence of terms and a disjunction of alternatives.\<close>

fun seqs :: "regex list \<Rightarrow> regex" where
  "seqs [] = Empty"
| "seqs [r] = r"
| "seqs (r # rs) = Seq r (seqs rs)"

fun disj :: "regex list \<Rightarrow> regex" where
  "disj [] = Empty"
| "disj [a] = a"
| "disj (a # as) = Alt a (disj as)"

section \<open>The \<^verbatim>\<open>RegExp\<close> constructor\<close>

text \<open>
  \<^verbatim>\<open>new RegExp(source, flags)\<close> reads the source text by the grammar of ECMAScript
  (without the \<^verbatim>\<open>u\<close> flag, with the extensions of Annex B that every browser and Node
  implement) and throws a \<^verbatim>\<open>SyntaxError\<close> when the text is not a pattern.

  The reading below covers alternation, groups \<^verbatim>\<open>(...)\<close> and \<^verbatim>\<open>(?:...)\<close>, lookaheads,
  the quantifiers \<^verbatim>\<open>*\<close>, \<^verbatim>\<open>+\<close>, \<^verbatim>\<open>?\<close> and their non-greedy forms, bracketed classes with
  ranges, \<^verbatim>\<open>.\<close>, \<^verbatim>\<open>^\<close>, \<^verbatim>\<open>$\<close>, \<^verbatim>\<open>\b\<close>, \<^verbatim>\<open>\B\<close>, the class escapes, the control escapes
  and the escape of any code unit that is no ASCII letter or digit.
  \<open>SyntaxError\<close> is returned only where the constructor throws. \<open>Unsupported\<close> is not
  an exception of JavaScript: it marks a source with syntax that is not modelled
  (a braced quantifier, a lookbehind, a named group or a group with modifiers, a
  back-reference, an escaped letter or digit other than the ones above). Of a run that
  meets such a source the model says nothing.
\<close>

datatype error = SyntaxError | TypeError | ReadError | Unsupported

record flags =
  multiline :: bool
  dotAll :: bool

text \<open>The flag strings of the code are \<^verbatim>\<open>"g"\<close>, \<^verbatim>\<open>"gm"\<close> and \<^verbatim>\<open>"gs"\<close>.\<close>

definition flags_of :: "string \<Rightarrow> flags" where
  "flags_of fl = \<lparr> multiline = List.member fl CHR ''m'', dotAll = List.member fl CHR ''s'' \<rparr>"

datatype quant = QStar | QPlus | QOpt

datatype opener = Capture | NonCapture | LookAhead | NegLookAhead

text \<open>
  The tokens of a pattern: an atom, an assertion (\<^verbatim>\<open>^\<close>, \<^verbatim>\<open>$\<close>, \<^verbatim>\<open>\b\<close>, \<^verbatim>\<open>\B\<close>), a
  quantifier (the flag tells the non-greedy form), the opening of a group, \<^verbatim>\<open>)\<close> and
  \<^verbatim>\<open>|\<close>.
\<close>

datatype token =
    TAtom cls
  | TAssert regex
  | TQuant quant bool
  | TOpen opener
  | TClose
  | TBar

definition starts :: "16 word \<Rightarrow> jsstring \<Rightarrow> bool" where
  "starts c r = (case r of [] \<Rightarrow> False | x # t \<Rightarrow> x = c)"

definition class_escape :: "16 word \<Rightarrow> item option" where
  "class_escape e =
     (if e = 0x64 then Some Digit else if e = 0x44 then Some NotDigit
      else if e = 0x73 then Some Space else if e = 0x53 then Some NotSpace
      else if e = 0x77 then Some WordChar else if e = 0x57 then Some NotWordChar
      else None)"

text \<open>\<^verbatim>\<open>\f\<close>, \<^verbatim>\<open>\n\<close>, \<^verbatim>\<open>\r\<close>, \<^verbatim>\<open>\t\<close>, \<^verbatim>\<open>\v\<close>.\<close>

definition control_escape :: "16 word \<Rightarrow> 16 word option" where
  "control_escape e =
     (if e = 0x66 then Some 0x0C else if e = 0x6E then Some 0x0A
      else if e = 0x72 then Some 0x0D else if e = 0x74 then Some 0x09
      else if e = 0x76 then Some 0x0B else None)"

text \<open>What follows a backslash outside brackets.\<close>

definition atom_escape :: "16 word \<Rightarrow> error + token" where
  "atom_escape e =
     (case class_escape e of
        Some i \<Rightarrow> Inr (TAtom (Esc i))
      | None \<Rightarrow>
          (case control_escape e of
             Some c \<Rightarrow> Inr (TAtom (Lit c))
           | None \<Rightarrow>
               if e = 0x62 then Inr (TAssert WordB)
               else if e = 0x42 then Inr (TAssert NotWordB)
               else if is_letter e \<or> is_digit e then Inl Unsupported
               else Inr (TAtom (Lit e))))"

text \<open>What follows a backslash inside brackets; there \<^verbatim>\<open>\b\<close> is the backspace.\<close>

definition class_atom_escape :: "16 word \<Rightarrow> error + item" where
  "class_atom_escape e =
     (case class_escape e of
        Some i \<Rightarrow> Inr i
      | None \<Rightarrow>
          (case control_escape e of
             Some c \<Rightarrow> Inr (Single c)
           | None \<Rightarrow>
               if e = 0x62 then Inr (Single 0x08)
               else if is_letter e \<or> is_digit e then Inl Unsupported
               else Inr (Single e)))"

text \<open>One atom of a class, and the source after it.\<close>

definition class_atom :: "jsstring \<Rightarrow> error + (item \<times> jsstring)" where
  "class_atom s =
     (case s of
        [] \<Rightarrow> Inl SyntaxError
      | c # r \<Rightarrow>
          if c = 0x5C
          then (case r of
                  [] \<Rightarrow> Inl SyntaxError
                | e # r' \<Rightarrow>
                    (case class_atom_escape e of Inl x \<Rightarrow> Inl x | Inr i \<Rightarrow> Inr (i, r')))
          else Inr (Single c, r))"

definition is_single :: "item \<Rightarrow> bool" where
  "is_single i = (case i of Single a \<Rightarrow> True | _ \<Rightarrow> False)"

definition single_value :: "item \<Rightarrow> 16 word" where
  "single_value i = (case i of Single a \<Rightarrow> a | _ \<Rightarrow> 0)"

text \<open>
  The inside of a bracketed class up to its \<^verbatim>\<open>]\<close>; without that bracket the class is
  unterminated. \<^verbatim>\<open>a-b\<close> between two single code units is a range, which must not run
  backwards; next to a class escape the \<^verbatim>\<open>-\<close> stands for itself (Annex B).
\<close>

function lex_class :: "item list \<Rightarrow> jsstring \<Rightarrow> error + (item list \<times> jsstring)" where
  "lex_class acc s =
     (if s = [] then Inl SyntaxError
      else if starts 0x5D s then Inr (rev acc, tl s)
      else (case class_atom s of
              Inl x \<Rightarrow> Inl x
            | Inr (a, r1) \<Rightarrow>
                if starts 0x2D r1 \<and> tl r1 \<noteq> [] \<and> \<not> starts 0x5D (tl r1)
                then (case class_atom (tl r1) of
                        Inl x \<Rightarrow> Inl x
                      | Inr (b, r2) \<Rightarrow>
                          if is_single a \<and> is_single b
                          then (if single_value b < single_value a then Inl SyntaxError
                                else lex_class (Range (single_value a) (single_value b) # acc) r2)
                          else lex_class (b # Single 0x2D # a # acc) r2)
                else lex_class (a # acc) r1))"
  by pat_completeness auto

lemma class_atom_shorter: "class_atom s = Inr (a, r) \<Longrightarrow> length r < length s"
  by (auto simp: class_atom_def split: list.splits if_splits sum.splits)

termination lex_class
proof (relation "measure (\<lambda>(acc, s). length s)")
  show "wf (measure (\<lambda>(acc, s). length s))" by simp
next
  fix acc s x a r1 y b r2
  assume "class_atom s = Inr x" "(a, r1) = x" "class_atom (tl r1) = Inr y" "(b, r2) = y"
  then have "length r1 < length s" "length r2 < length (tl r1)"
    by (auto dest: class_atom_shorter)
  then have "length r2 < length s" by simp
  then show "((Range (single_value a) (single_value b) # acc, r2), acc, s)
               \<in> measure (\<lambda>(acc, s). length s)"
    and "((b # Single 0x2D # a # acc, r2), acc, s) \<in> measure (\<lambda>(acc, s). length s)"
    by simp_all
next
  fix acc s x a r1
  assume "class_atom s = Inr x" "(a, r1) = x"
  then have "length r1 < length s" by (auto dest: class_atom_shorter)
  then show "((a # acc, r1), acc, s) \<in> measure (\<lambda>(acc, s). length s)" by simp
qed

declare lex_class.simps [simp del]

text \<open>
  \<open>braced r\<close>: the source after a \<^verbatim>\<open>{\<close> completes a braced quantifier \<^verbatim>\<open>{n}\<close>, \<^verbatim>\<open>{n,}\<close>
  or \<^verbatim>\<open>{n,m}\<close>. Any other \<^verbatim>\<open>{\<close> stands for itself (Annex B).
\<close>

definition braced :: "jsstring \<Rightarrow> bool" where
  "braced r =
     (let r1 = dropWhile is_digit r
      in takeWhile is_digit r \<noteq> []
         \<and> (starts 0x7D r1 \<or> (starts 0x2C r1 \<and> starts 0x7D (dropWhile is_digit (tl r1)))))"

definition quant_of :: "16 word \<Rightarrow> quant" where
  "quant_of c = (if c = 0x2A then QStar else if c = 0x2B then QPlus else QOpt)"

definition then_tok :: "token \<Rightarrow> error + token list \<Rightarrow> error + token list" where
  "then_tok t rest = (case rest of Inl x \<Rightarrow> Inl x | Inr ts \<Rightarrow> Inr (t # ts))"

text \<open>The source cut into tokens.\<close>

function lex :: "flags \<Rightarrow> jsstring \<Rightarrow> error + token list" where
  "lex f [] = Inr []"
| "lex f (c # r) =
     (if c = 0x5C then
        (case r of
           [] \<Rightarrow> Inl SyntaxError
         | e # r' \<Rightarrow>
             (case atom_escape e of Inl x \<Rightarrow> Inl x | Inr t \<Rightarrow> then_tok t (lex f r')))
      else if c = 0x5B then
        (case lex_class [] (if starts 0x5E r then tl r else r) of
           Inl x \<Rightarrow> Inl x
         | Inr (its, r') \<Rightarrow>
             then_tok (TAtom (if starts 0x5E r then NoneOf its else OneOf its)) (lex f r'))
      else if c = 0x28 then
        (if starts 0x3F r then
           (case tl r of
              [] \<Rightarrow> Inl SyntaxError
            | k # r' \<Rightarrow>
                if k = 0x3A then then_tok (TOpen NonCapture) (lex f r')
                else if k = 0x3D then then_tok (TOpen LookAhead) (lex f r')
                else if k = 0x21 then then_tok (TOpen NegLookAhead) (lex f r')
                else if k = 0x3C \<or> k = 0x2D \<or> is_letter k then Inl Unsupported
                else Inl SyntaxError)
         else then_tok (TOpen Capture) (lex f r))
      else if c = 0x29 then then_tok TClose (lex f r)
      else if c = 0x7C then then_tok TBar (lex f r)
      else if c = 0x5E then then_tok (TAssert (if multiline f then Bol else Bos)) (lex f r)
      else if c = 0x24 then then_tok (TAssert (if multiline f then Eol else Eos)) (lex f r)
      else if c = 0x2E then then_tok (TAtom (if dotAll f then AnyUnit else Dot)) (lex f r)
      else if c = 0x2A \<or> c = 0x2B \<or> c = 0x3F then
        (if starts 0x3F r then then_tok (TQuant (quant_of c) True) (lex f (tl r))
         else then_tok (TQuant (quant_of c) False) (lex f r))
      else if c = 0x7B \<and> braced r then Inl Unsupported
      else then_tok (TAtom (Lit c)) (lex f r))"
  by pat_completeness auto

lemma lex_class_shorter: "lex_class acc s = Inr (its, r) \<Longrightarrow> length r < length s"
proof (induction acc s arbitrary: its r rule: lex_class.induct)
  case (1 acc s)
  show ?case
  proof (cases "s = [] \<or> starts 0x5D s")
    case True
    with "1.prems" show ?thesis
      by (subst (asm) lex_class.simps) (auto simp: starts_def split: list.splits if_splits)
  next
    case False
    with "1.prems" obtain a r1 where a: "class_atom s = Inr (a, r1)"
      by (subst (asm) lex_class.simps) (auto split: sum.splits)
    then have l1: "length r1 < length s" by (rule class_atom_shorter)
    show ?thesis
    proof (cases "starts 0x2D r1 \<and> tl r1 \<noteq> [] \<and> \<not> starts 0x5D (tl r1)")
      case range: True
      with False a "1.prems" obtain b r2 where b: "class_atom (tl r1) = Inr (b, r2)"
        by (subst (asm) lex_class.simps) (auto split: sum.splits)
      then have "length r2 < length (tl r1)" by (rule class_atom_shorter)
      with l1 have l2: "length r2 < length s" by simp
      show ?thesis
      proof (cases "is_single a \<and> is_single b")
        case True
        with False a range b "1.prems" have
          "lex_class (Range (single_value a) (single_value b) # acc) r2 = Inr (its, r)"
          by (subst (asm) lex_class.simps) (auto split: if_splits)
        moreover from True False a range b "1.prems" have "\<not> single_value b < single_value a"
          by (subst (asm) lex_class.simps) (auto split: if_splits)
        ultimately have "length r < length r2"
          using "1.IH"(1)[of "(a, r1)" a r1 "(b, r2)" b r2] False a range b True by auto
        with l2 show ?thesis by simp
      next
        case F: False
        with False a range b "1.prems" have
          "lex_class (b # Single 0x2D # a # acc) r2 = Inr (its, r)"
          by (subst (asm) lex_class.simps) (auto split: if_splits)
        then have "length r < length r2"
          using "1.IH"(2)[of "(a, r1)" a r1 "(b, r2)" b r2] False a range b F by auto
        with l2 show ?thesis by simp
      qed
    next
      case norange: False
      with False a "1.prems" have "lex_class (a # acc) r1 = Inr (its, r)"
        by (subst (asm) lex_class.simps) (auto split: if_splits)
      then have "length r < length r1"
        using "1.IH"(3)[of "(a, r1)" a r1] False a norange by auto
      with l1 show ?thesis by simp
    qed
  qed
qed

termination lex
proof (relation "measure (\<lambda>(f, s). length s)")
  show "wf (measure (\<lambda>(f, s). length s))" by simp
next
  fix f :: flags and c :: "16 word" and r x its r'
  assume "lex_class [] (if starts 0x5E r then tl r else r) = Inr x" "(its, r') = x"
  then have "lex_class [] (if starts 0x5E r then tl r else r) = Inr (its, r')" by simp
  then have "length r' < length (if starts 0x5E r then tl r else r)"
    by (rule lex_class_shorter)
  then have "length r' < length (c # r)" by (auto split: if_splits)
  then show "((f, r'), f, c # r) \<in> measure (\<lambda>(f, s). length s)" by simp
qed (auto simp: starts_def split: list.splits)

declare lex.simps [simp del]

text \<open>
  The tokens are read with a stack of the groups that are open. For the group being
  read, \<open>alts\<close> holds the alternatives that are complete and \<open>terms\<close> the terms of the
  current one, both latest first; the flag tells whether the latest term may take a
  quantifier (an assertion and a quantified term may not; a lookahead may, by Annex B).
\<close>

type_synonym frame = "opener \<times> regex list \<times> regex list"

type_synonym pstate = "frame list \<times> regex list \<times> regex list \<times> bool"

text \<open>\<^verbatim>\<open>a+\<close> is one mandatory \<^verbatim>\<open>a\<close> followed by \<^verbatim>\<open>a*\<close>.\<close>

fun quantify :: "quant \<Rightarrow> bool \<Rightarrow> regex \<Rightarrow> regex" where
  "quantify QStar False t = Star t"
| "quantify QStar True t = Lazy t"
| "quantify QPlus False t = Seq t (Star t)"
| "quantify QPlus True t = Seq t (Lazy t)"
| "quantify QOpt False t = Opt t"
| "quantify QOpt True t = LazyOpt t"

fun group :: "opener \<Rightarrow> regex \<Rightarrow> regex" where
  "group Capture d = d"
| "group NonCapture d = d"
| "group LookAhead d = Ahead d"
| "group NegLookAhead d = NotAhead d"

definition disjunction :: "regex list \<Rightarrow> regex list \<Rightarrow> regex" where
  "disjunction alts terms = disj (rev (seqs (rev terms) # alts))"

fun shift :: "pstate \<Rightarrow> token \<Rightarrow> error + pstate" where
  "shift (st, alts, terms, q) (TAtom c) = Inr (st, alts, Atom c # terms, True)"
| "shift (st, alts, terms, q) (TAssert a) = Inr (st, alts, a # terms, False)"
| "shift (st, alts, terms, q) (TQuant k lazy) =
     (case terms of
        [] \<Rightarrow> Inl SyntaxError
      | t # ts \<Rightarrow> if q then Inr (st, alts, quantify k lazy t # ts, False) else Inl SyntaxError)"
| "shift (st, alts, terms, q) TBar = Inr (st, seqs (rev terms) # alts, [], False)"
| "shift (st, alts, terms, q) (TOpen opn) = Inr ((opn, alts, terms) # st, [], [], False)"
| "shift (st, alts, terms, q) TClose =
     (case st of
        [] \<Rightarrow> Inl SyntaxError
      | (opn, palts, pterms) # st' \<Rightarrow>
          Inr (st', palts, group opn (disjunction alts terms) # pterms, True))"

fun parse_tokens :: "pstate \<Rightarrow> token list \<Rightarrow> error + regex" where
  "parse_tokens (st, alts, terms, q) [] =
     (if st = [] then Inr (disjunction alts terms) else Inl SyntaxError)"
| "parse_tokens s (t # ts) =
     (case shift s t of Inl x \<Rightarrow> Inl x | Inr s' \<Rightarrow> parse_tokens s' ts)"

definition RegExp :: "jsstring \<Rightarrow> string \<Rightarrow> error + regex" where
  "RegExp source fl =
     (case lex (flags_of fl) source of
        Inl x \<Rightarrow> Inl x
      | Inr ts \<Rightarrow> parse_tokens ([], [], [], False) ts)"

section \<open>Global search: \<^verbatim>\<open>String.prototype.match\<close> and \<^verbatim>\<open>replace\<close> with the \<^verbatim>\<open>g\<close> flag\<close>

text \<open>
  Both walk the input with \<^verbatim>\<open>lastIndex\<close>: the match is tried at the current index and,
  when it fails there, one code unit further; after a match the search resumes where the
  match ended, or one code unit further when the match was empty. \<open>scan\<close> returns the
  input cut into the code units that no match covers and the matched substrings.
\<close>

datatype piece = Keep "16 word" | Hit jsstring

function scan :: "regex \<Rightarrow> pos \<Rightarrow> piece list" where
  "scan r p =
     (case matcher r p of
        [] \<Rightarrow> (case snd p of [] \<Rightarrow> [] | x # t \<Rightarrow> Keep x # scan r (Some x, t))
      | q # _ \<Rightarrow>
          if length (snd q) < length (snd p)
          then Hit (take (length (snd p) - length (snd q)) (snd p)) # scan r q
          else Hit [] # (case snd p of [] \<Rightarrow> [] | x # t \<Rightarrow> Keep x # scan r (Some x, t)))"
  by pat_completeness auto
termination
  by (relation "measure (\<lambda>(r, p). length (snd p))") auto

text \<open>
  \<^verbatim>\<open>s.replace(re, "...")\<close>: every match gives way to the replacement string (none of
  the replacement strings of the code contains a \<^verbatim>\<open>$\<close> pattern).
\<close>

fun subst :: "jsstring \<Rightarrow> piece \<Rightarrow> jsstring" where
  "subst rep (Keep c) = [c]"
| "subst rep (Hit m) = rep"

definition replace_str :: "regex \<Rightarrow> jsstring \<Rightarrow> jsstring \<Rightarrow> jsstring" where
  "replace_str r rep s = concat (map (subst rep) (scan r (None, s)))"

text \<open>
  \<^verbatim>\<open>s.replace(re, (match) => ...)\<close>: the callback is called on every match in turn; what
  it returns replaces the match, and an exception it throws leaves \<^verbatim>\<open>replace\<close>.
\<close>

fun replace_pieces :: "(jsstring \<Rightarrow> error + jsstring) \<Rightarrow> piece list \<Rightarrow> error + jsstring" where
  "replace_pieces f [] = Inr []"
| "replace_pieces f (Keep c # ps) =
     (case replace_pieces f ps of Inl e \<Rightarrow> Inl e | Inr out \<Rightarrow> Inr (c # out))"
| "replace_pieces f (Hit m # ps) =
     (case f m of
        Inl e \<Rightarrow> Inl e
      | Inr rep \<Rightarrow> (case replace_pieces f ps of Inl e \<Rightarrow> Inl e | Inr out \<Rightarrow> Inr (rep @ out)))"

definition replace_fn :: "regex \<Rightarrow> (jsstring \<Rightarrow> error + jsstring) \<Rightarrow> jsstring \<Rightarrow> error + jsstring" where
  "replace_fn r f s = replace_pieces f (scan r (None, s))"

text \<open>\<^verbatim>\<open>s.match(re)\<close> with the \<^verbatim>\<open>g\<close> flag: the matched substrings, or \<^verbatim>\<open>null\<close> when there is none.\<close>

fun hits :: "piece list \<Rightarrow> jsstring list" where
  "hits [] = []"
| "hits (Keep c # ps) = hits ps"
| "hits (Hit m # ps) = m # hits ps"

definition match_all :: "regex \<Rightarrow> jsstring \<Rightarrow> jsstring list option" where
  "match_all r s = (case hits (scan r (None, s)) of [] \<Rightarrow> None | m # ms \<Rightarrow> Some (m # ms))"

section \<open>String methods used by the callback\<close>

text \<open>\<^verbatim>\<open>s.split("\n")\<close>.\<close>

fun split_lf :: "jsstring \<Rightarrow> jsstring list" where
  "split_lf [] = [[]]"
| "split_lf (c # cs) =
     (if c = 0x0A then [] # split_lf cs
      else (case split_lf cs of [] \<Rightarrow> [[c]] | l # ls \<Rightarrow> (c # l) # ls))"

definition trimStart :: "jsstring \<Rightarrow> jsstring" where
  "trimStart s = dropWhile is_white_space s"

fun starts_with :: "jsstring \<Rightarrow> jsstring \<Rightarrow> bool" where
  "starts_with s [] = True"
| "starts_with [] (b # bs) = False"
| "starts_with (a # as) (b # bs) = (a = b \<and> starts_with as bs)"

fun str_includes :: "jsstring \<Rightarrow> jsstring \<Rightarrow> bool" where
  "str_includes [] sub = starts_with [] sub"
| "str_includes (a # as) sub = (starts_with (a # as) sub \<or> str_includes as sub)"

section \<open>The patterns of \<^verbatim>\<open>extension.ts\<close>\<close>

text \<open>
  \<^verbatim>\<open>config.consoleMethods.join("|")\<close> is spliced into the source of every pattern as
  \<^verbatim>\<open>(${methods})\<close>, and the pattern is compiled where it is used. The sources are the
  texts that the template literals of the code denote.
\<close>

text \<open>\<^verbatim>\<open>console\s*\.\s*(${methods})\s*\(\<close>, flags \<^verbatim>\<open>gs\<close>.\<close>

definition countPattern :: "jsstring list \<Rightarrow> error + regex" where
  "countPattern methods =
     RegExp (rx ''console%s*%.%s*('' @ join methods @ rx '')%s*%('') ''gs''"

text \<open>\<^verbatim>\<open>^[ \t]*console\s*\.\s*(${methods})\s*\([^;]*\)\s*;?\s*$\<close>, flags \<^verbatim>\<open>gm\<close>.\<close>

definition singleLinePattern :: "jsstring list \<Rightarrow> error + regex" where
  "singleLinePattern methods =
     RegExp (rx ''^[ %t]*console%s*%.%s*('' @ join methods @ rx '')%s*%([^;]*%)%s*;?%s*$'')
       ''gm''"

text \<open>
  \<^verbatim>\<open>^[ \t]*console\s*\.\s*(${methods})\s*\([^)]*(?:\([^)]*\)[^)]*)*\)\s*;?\s*$\<close>,
  flags \<^verbatim>\<open>gm\<close>.
\<close>

definition multiLinePattern :: "jsstring list \<Rightarrow> error + regex" where
  "multiLinePattern methods =
     RegExp (rx ''^[ %t]*console%s*%.%s*('' @ join methods
               @ rx '')%s*%([^)]*(?:%([^)]*%)[^)]*)*%)%s*;?%s*$'')
       ''gm''"

text \<open>\<^verbatim>\<open>console\s*\.\s*(${methods})\s*\([^;{}]*?\)\s*;?\<close>, flags \<^verbatim>\<open>gs\<close>.\<close>

definition complexPattern :: "jsstring list \<Rightarrow> error + regex" where
  "complexPattern methods =
     RegExp (rx ''console%s*%.%s*('' @ join methods @ rx '')%s*%([^;{}]*?%)%s*;?'') ''gs''"

text \<open>\<^verbatim>\<open>^[ \t]*\/\/\s*console\s*\.\s*(${methods})\s*\(.*$\<close>, flags \<^verbatim>\<open>gm\<close>.\<close>

definition commentedPattern :: "jsstring list \<Rightarrow> error + regex" where
  "commentedPattern methods =
     RegExp (rx ''^[ %t]*%/%/%s*console%s*%.%s*('' @ join methods @ rx '')%s*%(.*$'') ''gm''"

text \<open>\<^verbatim>\<open>\/\*[\s\S]*?console\s*\.\s*(${methods})\s*\([\s\S]*?\*\/\<close>, flag \<^verbatim>\<open>g\<close>.\<close>

definition blockCommentPattern :: "jsstring list \<Rightarrow> error + regex" where
  "blockCommentPattern methods =
     RegExp (rx ''%/%*[%s%S]*?console%s*%.%s*('' @ join methods @ rx '')%s*%([%s%S]*?%*%/'')
       ''g''"

text \<open>
  The two patterns of the clean-up are literals of the code, read when the script is
  loaded: \<^verbatim>\<open>/\n\s*\n\s*\n\s*\n/g\<close> and \<^verbatim>\<open>/^[ \t]+$/gm\<close>.
\<close>

definition blankRunPattern :: regex where
  "blankRunPattern =
     seqs [Atom (Lit 0x0A), Star (Atom (Esc Space)), Atom (Lit 0x0A), Star (Atom (Esc Space)),
           Atom (Lit 0x0A), Star (Atom (Esc Space)), Atom (Lit 0x0A)]"

definition blankLinePattern :: regex where
  "blankLinePattern =
     seqs [Bol,
           Seq (Atom (OneOf [Single 0x20, Single 0x09]))
               (Star (Atom (OneOf [Single 0x20, Single 0x09]))),
           Eol]"

section \<open>\<^verbatim>\<open>countConsoleLogs\<close>\<close>

text \<open>
  The function reads the file, compiles the pattern and counts the matches in the text;
  whatever is thrown on the way, by the read or by the constructor, is caught and gives
  0. The argument \<open>file\<close> is the outcome of the read.
\<close>

definition countConsoleLogs :: "jsstring list \<Rightarrow> error + jsstring \<Rightarrow> error + nat" where
  "countConsoleLogs methods file =
     (case file of
        Inl e \<Rightarrow> Inr 0
      | Inr content \<Rightarrow>
          (case countPattern methods of
             Inl e \<Rightarrow> if e = Unsupported then Inl Unsupported else Inr 0
           | Inr regex \<Rightarrow>
               (case match_all regex content of
                  None \<Rightarrow> Inr 0
                | Some matches \<Rightarrow> Inr (length matches))))"

section \<open>\<^verbatim>\<open>removeConsoleLogs\<close>\<close>

text \<open>\<^verbatim>\<open>result.replace(new RegExp(...), "")\<close>: the constructor may throw.\<close>

definition replace_new :: "error + regex \<Rightarrow> jsstring \<Rightarrow> jsstring \<Rightarrow> error + jsstring" where
  "replace_new pattern rep s =
     (case pattern of Inl e \<Rightarrow> Inl e | Inr re \<Rightarrow> Inr (replace_str re rep s))"

text \<open>
  The callback of the third pattern. \<^verbatim>\<open>lines[0]\<close> is \<^verbatim>\<open>undefined\<close> on an empty array,
  and \<^verbatim>\<open>undefined.trimStart()\<close> throws a \<^verbatim>\<open>TypeError\<close>; \<^verbatim>\<open>firstLine\<close> is not used
  after that.
\<close>

definition complexReplacer :: "jsstring \<Rightarrow> error + jsstring" where
  "complexReplacer match =
     (case split_lf match of
        [] \<Rightarrow> Inl TypeError
      | line0 # _ \<Rightarrow>
          (let firstLine = trimStart line0
           in if \<not> str_includes match (js ''{'') \<and> \<not> str_includes match (js ''function'')
              then Inr []
              else Inr match))"

text \<open>One application of the third pattern's substitution to \<^verbatim>\<open>result\<close>.\<close>

definition complexPass :: "regex \<Rightarrow> jsstring \<Rightarrow> error + jsstring" where
  "complexPass pattern result = replace_fn pattern complexReplacer result"

definition maxIterations :: nat where
  "maxIterations = 5"

text \<open>
  The \<^verbatim>\<open>while\<close> loop of the third pattern, on \<^verbatim>\<open>previousResult\<close>, \<^verbatim>\<open>result\<close> and
  \<^verbatim>\<open>iterations\<close>; it returns the final \<^verbatim>\<open>result\<close> and \<^verbatim>\<open>iterations\<close>. The body
  compiles the pattern anew at every turn; \<open>compiled\<close> is the outcome of that
  \<^verbatim>\<open>new RegExp(...)\<close>, the same at every turn.
\<close>

function complexLoop ::
  "error + regex \<Rightarrow> jsstring \<Rightarrow> jsstring \<Rightarrow> nat \<Rightarrow> error + (jsstring \<times> nat)" where
  "complexLoop compiled previousResult result iterations =
     (if previousResult \<noteq> result \<and> iterations < maxIterations
      then (case compiled of
              Inl e \<Rightarrow> Inl e
            | Inr pattern \<Rightarrow>
                (case complexPass pattern result of
                   Inl e \<Rightarrow> Inl e
                 | Inr result' \<Rightarrow> complexLoop compiled result result' (iterations + 1)))
      else Inr (result, iterations))"
  by pat_completeness auto
termination
  by (relation "measure (\<lambda>(compiled, previousResult, result, iterations).
                           maxIterations - iterations)") auto

definition removeConsoleLogs :: "jsstring list \<Rightarrow> jsstring \<Rightarrow> error + jsstring" where
  "removeConsoleLogs methods content =
     (case replace_new (singleLinePattern methods) [] content of
        Inl e \<Rightarrow> Inl e
      | Inr result1 \<Rightarrow>
     (case replace_new (multiLinePattern methods) [] result1 of
        Inl e \<Rightarrow> Inl e
      | Inr result2 \<Rightarrow>
     (case complexLoop (complexPattern methods) [] result2 0 of
        Inl e \<Rightarrow> Inl e
      | Inr (result3, iterations) \<Rightarrow>
     (case replace_new (commentedPattern methods) [] result3 of
        Inl e \<Rightarrow> Inl e
      | Inr result4 \<Rightarrow>
     (case replace_new (blockCommentPattern methods) [] result4 of
        Inl e \<Rightarrow> Inl e
      | Inr result5 \<Rightarrow>
          (let result6 = replace_str blankRunPattern (js ''\<newline>\<newline>\<newline>'') result5;
               result7 = replace_str blankLinePattern [] result6
           in Inr result7))))))"

section \<open>Notions used to state the properties\<close>

text \<open>The text a piece stands for in the input.\<close>

fun piece_text :: "piece \<Rightarrow> jsstring" where
  "piece_text (Keep c) = [c]"
| "piece_text (Hit m) = m"

text \<open>A lower bound on the number of code units a match consumes.\<close>

fun minlen :: "regex \<Rightarrow> nat" where
  "minlen (Atom c) = 1"
| "minlen Empty = 0"
| "minlen (Seq a b) = minlen a + minlen b"
| "minlen (Alt a b) = min (minlen a) (minlen b)"
| "minlen r = 0"

text \<open>
  \<open>after p ys q\<close>: position \<open>q\<close> is position \<open>p\<close> moved over the code units \<open>ys\<close>.
\<close>

definition after :: "pos \<Rightarrow> jsstring \<Rightarrow> pos \<Rightarrow> bool" where
  "after p ys q = (snd p = ys @ snd q \<and> fst q = (if ys = [] then fst p else Some (last ys)))"

text \<open>\<open>passes n\<close>: the substitution of the third pattern applied \<open>n\<close> times in a row.\<close>

fun passes :: "nat \<Rightarrow> regex \<Rightarrow> jsstring \<Rightarrow> error + jsstring" where
  "passes 0 pattern s = Inr s"
| "passes (Suc n) pattern s =
     (case complexPass pattern s of Inl e \<Rightarrow> Inl e | Inr s' \<Rightarrow> passes n pattern s')"

text \<open>The positions of the input from a position on, in the order of the search.\<close>

fun positions :: "pos \<Rightarrow> pos list" where
  "positions (p, []) = [(p, [])]"
| "positions (p, x # t) = (p, x # t) # positions (Some x, t)"

text \<open>
  The number of line feeds in the white space at the head of a text, and the text after
  the last of them.
\<close>

definition lfs :: "jsstring \<Rightarrow> nat" where
  "lfs t = length (filter (\<lambda>c. c = 0x0A) (takeWhile is_white_space t))"

fun skip_lfs :: "jsstring \<Rightarrow> jsstring" where
  "skip_lfs [] = []"
| "skip_lfs (x # t) = (if lfs (x # t) = 0 then x # t else skip_lfs t)"

text \<open>No white space in the text holds more than three line feeds.\<close>

fun run_free :: "jsstring \<Rightarrow> bool" where
  "run_free [] = True"
| "run_free (x # t) = (lfs (x # t) \<le> 3 \<and> run_free t)"

text \<open>The tail \<^verbatim>\<open>\s*\n\<close>, \<^verbatim>\<open>\s*\n\s*\n\<close>, ... of the blank-run pattern.\<close>

fun more_lines :: "nat \<Rightarrow> regex" where
  "more_lines 0 = Seq (Star (Atom (Esc Space))) (Atom (Lit 0x0A))"
| "more_lines (Suc k) = Seq (Star (Atom (Esc Space))) (Seq (Atom (Lit 0x0A)) (more_lines k))"

text \<open>The two clean-up substitutions, from a position on.\<close>

definition collapse_from :: "16 word option \<Rightarrow> jsstring \<Rightarrow> jsstring" where
  "collapse_from p t = concat (map (subst (js ''\<newline>\<newline>\<newline>'')) (scan blankRunPattern (p, t)))"

text \<open>The class \<^verbatim>\<open>[ \t]\<close>, and the tests of \<^verbatim>\<open>^\<close> and \<^verbatim>\<open>$\<close>.\<close>

definition blank :: "16 word \<Rightarrow> bool" where
  "blank x = in_cls (OneOf [Single 0x20, Single 0x09]) x"

definition bol :: "16 word option \<Rightarrow> bool" where
  "bol p = (case p of None \<Rightarrow> True | Some c \<Rightarrow> is_line_terminator c)"

definition eol :: "jsstring \<Rightarrow> bool" where
  "eol t = (case t of [] \<Rightarrow> True | x # _ \<Rightarrow> is_line_terminator x)"

definition strip_from :: "16 word option \<Rightarrow> jsstring \<Rightarrow> jsstring" where
  "strip_from p t = concat (map (subst []) (scan blankLinePattern (p, t)))"

text \<open>No line of the text, read from a position on, is made of blanks only.\<close>

fun line_free :: "16 word option \<Rightarrow> jsstring \<Rightarrow> bool" where
  "line_free p [] = True"
| "line_free p (x # t) =
     (\<not> (bol p \<and> blank x \<and> eol (dropWhile blank t)) \<and> line_free (Some x) t)"

text \<open>
  The ECMAScript \<^verbatim>\<open>SyntaxCharacter\<close>s. A method name without any of them is read by
  \<^verbatim>\<open>new RegExp\<close> as the text it is; the method names of the shipped configuration
  (\<^verbatim>\<open>log\<close>, \<^verbatim>\<open>warn\<close>, \<^verbatim>\<open>error\<close>, ...) are of that kind.
\<close>

definition is_syntax_char :: "16 word \<Rightarrow> bool" where
  "is_syntax_char c =
     (c = 0x5E \<or> c = 0x24 \<or> c = 0x5C \<or> c = 0x2E \<or> c = 0x2A \<or> c = 0x2B \<or> c = 0x3F
      \<or> c = 0x28 \<or> c = 0x29 \<or> c = 0x5B \<or> c = 0x5D \<or> c = 0x7B \<or> c = 0x7D \<or> c = 0x7C)"

definition plain_name :: "jsstring \<Rightarrow> bool" where
  "plain_name n = (\<not> list_ex is_syntax_char n)"

definition plain_names :: "jsstring list \<Rightarrow> bool" where
  "plain_names methods = list_all plain_name methods"

text \<open>
  What the patterns have in common when the names are plain: the syntax tree of
  \<^verbatim>\<open>console\s*\.\s*(${methods})\s*\(\<close>, as a list of terms.
\<close>

definition name_terms :: "jsstring \<Rightarrow> regex list" where
  "name_terms n = map (\<lambda>c. Atom (Lit c)) n"

definition names_group :: "jsstring list \<Rightarrow> regex" where
  "names_group methods =
     disj (map (\<lambda>n. seqs (name_terms n)) (if methods = [] then [[]] else methods))"

definition call_head :: "jsstring list \<Rightarrow> regex list" where
  "call_head methods =
     name_terms (js ''console'')
       @ [Star (Atom (Esc Space)), Atom (Lit 0x2E), Star (Atom (Esc Space)),
          names_group methods, Star (Atom (Esc Space)), Atom (Lit 0x28)]"

text \<open>The tokens of \<^verbatim>\<open>methods.join("|")\<close> for plain names.\<close>

definition then_toks :: "token list \<Rightarrow> error + token list \<Rightarrow> error + token list" where
  "then_toks ts rest = (case rest of Inl x \<Rightarrow> Inl x | Inr ts' \<Rightarrow> Inr (ts @ ts'))"

fun name_tokens :: "jsstring list \<Rightarrow> token list" where
  "name_tokens [] = []"
| "name_tokens [n] = map (\<lambda>c. TAtom (Lit c)) n"
| "name_tokens (n # ns) = map (\<lambda>c. TAtom (Lit c)) n @ TBar # name_tokens ns"

text \<open>The test of the callback: the match holds \<^verbatim>\<open>{\<close> or \<^verbatim>\<open>function\<close>.\<close>

definition keeps :: "jsstring \<Rightarrow> bool" where
  "keeps m = (str_includes m (js ''{'') \<or> str_includes m (js ''function''))"

text \<open>
  \<open>nothing_to_erase methods s\<close>: no pass of \<^verbatim>\<open>removeConsoleLogs\<close> finds anything to erase
  in \<open>s\<close>. The first, second, fourth and fifth pattern compile and each of their matches
  in \<open>s\<close> is empty; for the third pattern, \<open>s\<close> is empty (the loop does not run and the
  pattern is not compiled) or the pattern compiles and each of its matches in \<open>s\<close> is
  empty or is put back by the callback.
\<close>

definition erases_nothing :: "error + regex \<Rightarrow> jsstring \<Rightarrow> bool" where
  "erases_nothing pattern s =
     (case pattern of
        Inl e \<Rightarrow> False
      | Inr re \<Rightarrow> list_all (\<lambda>m. m = []) (hits (scan re (None, s))))"

definition only_kept :: "error + regex \<Rightarrow> jsstring \<Rightarrow> bool" where
  "only_kept pattern s =
     (case pattern of
        Inl e \<Rightarrow> s = []
      | Inr re \<Rightarrow> list_all (\<lambda>m. m = [] \<or> keeps m) (hits (scan re (None, s))))"

definition nothing_to_erase :: "jsstring list \<Rightarrow> jsstring \<Rightarrow> bool" where
  "nothing_to_erase methods s =
     (erases_nothing (singleLinePattern methods) s \<and> erases_nothing (multiLinePattern methods) s
      \<and> only_kept (complexPattern methods) s
      \<and> erases_nothing (commentedPattern methods) s
      \<and> erases_nothing (blockCommentPattern methods) s)"

text \<open>The two clean-up substitutions at the end of \<^verbatim>\<open>removeConsoleLogs\<close>.\<close>

definition cleanup :: "jsstring \<Rightarrow> jsstring" where
  "cleanup s =
     replace_str blankLinePattern [] (replace_str blankRunPattern (js ''\<newline>\<newline>\<newline>'') s)"

section \<open>The matcher and the global search\<close>

text \<open>
  The recursive equations of the quantifiers, of \<open>scan\<close> and of the loop are unfolded by
  hand only.
\<close>

declare scan.simps [simp del]
declare matcher.simps(5) [simp del]
declare matcher.simps(6) [simp del]
declare complexLoop.simps [simp del]

lemma in_matcher_Star:
  "q \<in> set (matcher (Star a) p) \<longleftrightarrow>
     q = p \<or> (\<exists>m \<in> set (matcher a p). length (snd m) < length (snd p) \<and> q \<in> set (matcher (Star a) m))"
  by (auto simp: matcher.simps(5)[of a p])

lemma in_matcher_Lazy:
  "q \<in> set (matcher (Lazy a) p) \<longleftrightarrow>
     q = p \<or> (\<exists>m \<in> set (matcher a p). length (snd m) < length (snd p) \<and> q \<in> set (matcher (Lazy a) m))"
  by (subst matcher.simps) auto
lemma after_refl: "after p [] p"
  by (simp add: after_def)

lemma after_trans: "after p ys q \<Longrightarrow> after q zs r \<Longrightarrow> after p (ys @ zs) r"
  by (auto simp: after_def)

lemma matcher_after: "q \<in> set (matcher r p) \<Longrightarrow> \<exists>ys. after p ys q"
proof (induction r p arbitrary: q rule: matcher.induct)
  case (1 c p)
  show ?case
  proof (cases "snd p")
    case Nil
    with "1.prems" show ?thesis by simp
  next
    case (Cons x t)
    with "1.prems" have "q = (Some x, t)" by (simp split: if_splits)
    with Cons have "after p [x] q" by (simp add: after_def)
    then show ?thesis by (rule exI)
  qed
next
  case (2 p)
  then have "after p [] q" by (simp add: after_def)
  then show ?case by (rule exI)
next
  case (3 a b p)
  from "3.prems" obtain m where m: "m \<in> set (matcher a p)" "q \<in> set (matcher b m)"
    by auto
  from "3.IH"(1)[OF m(1)] obtain ys where ys: "after p ys m" by (rule exE)
  from "3.IH"(2)[OF m(1) m(2)] obtain zs where zs: "after m zs q" by (rule exE)
  from ys zs have "after p (ys @ zs) q" by (rule after_trans)
  then show ?case by (rule exI)
next
  case (4 a b p)
  from "4.prems" have "q \<in> set (matcher a p) \<or> q \<in> set (matcher b p)" by simp
  then show ?case using "4.IH" by (elim disjE)
next
  case (5 a p)
  show ?case
  proof (cases "q = p")
    case True
    then have "after p [] q" by (simp add: after_def)
    then show ?thesis by (rule exI)
  next
    case False
    with "5.prems" obtain m where m: "m \<in> set (matcher a p)"
      "length (snd m) < length (snd p)" "q \<in> set (matcher (Star a) m)"
      by (auto simp: in_matcher_Star[of q a p])
    from m(1,2) have m': "m \<in> set (filter (\<lambda>q. length (snd q) < length (snd p)) (matcher a p))"
      by simp
    from "5.IH"(1)[OF m(1)] obtain ys where ys: "after p ys m" by (rule exE)
    from "5.IH"(2)[OF m' m(3)] obtain zs where zs: "after m zs q" by (rule exE)
    from ys zs have "after p (ys @ zs) q" by (rule after_trans)
    then show ?thesis by (rule exI)
  qed
next
  case (6 a p)
  show ?case
  proof (cases "q = p")
    case True
    then have "after p [] q" by (simp add: after_def)
    then show ?thesis by (rule exI)
  next
    case False
    with "6.prems" obtain m where m: "m \<in> set (matcher a p)"
      "length (snd m) < length (snd p)" "q \<in> set (matcher (Lazy a) m)"
      by (auto simp: in_matcher_Lazy[of q a p])
    from m(1,2) have m': "m \<in> set (filter (\<lambda>q. length (snd q) < length (snd p)) (matcher a p))"
      by simp
    from "6.IH"(1)[OF m(1)] obtain ys where ys: "after p ys m" by (rule exE)
    from "6.IH"(2)[OF m' m(3)] obtain zs where zs: "after m zs q" by (rule exE)
    from ys zs have "after p (ys @ zs) q" by (rule after_trans)
    then show ?thesis by (rule exI)
  qed
next
  case (7 a p)
  from "7.prems" have "q \<in> set (matcher a p) \<or> q = p" by auto
  then show ?case
  proof
    assume "q \<in> set (matcher a p)"
    then show ?thesis by (rule "7.IH")
  next
    assume "q = p"
    then have "after p [] q" by (simp add: after_def)
    then show ?thesis by (rule exI)
  qed
next
  case (8 a p)
  from "8.prems" have "q = p \<or> q \<in> set (matcher a p)" by auto
  then show ?case
  proof
    assume "q \<in> set (matcher a p)"
    then show ?thesis by (rule "8.IH")
  next
    assume "q = p"
    then have "after p [] q" by (simp add: after_def)
    then show ?thesis by (rule exI)
  qed
next
  case (9 p)
  then have "q = p" by (simp split: option.splits if_splits)
  then have "after p [] q" by (simp add: after_def)
  then show ?case by (rule exI)
next
  case (10 p)
  then have "q = p" by (simp split: list.splits if_splits)
  then have "after p [] q" by (simp add: after_def)
  then show ?case by (rule exI)
next
  case (11 p)
  then have "q = p" by (simp split: option.splits)
  then have "after p [] q" by (simp add: after_def)
  then show ?case by (rule exI)
next
  case (12 p)
  then have "q = p" by (simp split: list.splits)
  then have "after p [] q" by (simp add: after_def)
  then show ?case by (rule exI)
next
  case (13 p)
  then have "q = p" by (simp split: if_splits)
  then have "after p [] q" by (simp add: after_def)
  then show ?case by (rule exI)
next
  case (14 p)
  then have "q = p" by (simp split: if_splits)
  then have "after p [] q" by (simp add: after_def)
  then show ?case by (rule exI)
next
  case (15 a p)
  then have "q = p" by (simp split: list.splits)
  then have "after p [] q" by (simp add: after_def)
  then show ?case by (rule exI)
next
  case (16 a p)
  then have "q = p" by (simp split: list.splits)
  then have "after p [] q" by (simp add: after_def)
  then show ?case by (rule exI)
qed

lemma matcher_minlen:
  "q \<in> set (matcher r p) \<Longrightarrow> length (snd q) + minlen r \<le> length (snd p)"
proof (induction r p arbitrary: q rule: matcher.induct)
  case (1 c p)
  then show ?case by (cases p) (auto split: list.splits if_splits)
next
  case (2 p)
  then show ?case by simp
next
  case (3 a b p)
  from "3.prems" obtain m where m: "m \<in> set (matcher a p)" "q \<in> set (matcher b m)"
    by auto
  from "3.IH"(1)[OF m(1)] "3.IH"(2)[OF m(1) m(2)] show ?case by simp
next
  case (4 a b p)
  from "4.prems" have "q \<in> set (matcher a p) \<or> q \<in> set (matcher b p)" by simp
  then show ?case
  proof
    assume "q \<in> set (matcher a p)"
    from "4.IH"(1)[OF this] show ?thesis by simp
  next
    assume "q \<in> set (matcher b p)"
    from "4.IH"(2)[OF this] show ?thesis by simp
  qed
next
  case (5 a p)
  show ?case
  proof (cases "q = p")
    case True
    then show ?thesis by simp
  next
    case False
    with "5.prems" obtain m where m: "m \<in> set (matcher a p)"
      "length (snd m) < length (snd p)" "q \<in> set (matcher (Star a) m)"
      by (auto simp: in_matcher_Star[of q a p])
    from m(1,2) have m': "m \<in> set (filter (\<lambda>q. length (snd q) < length (snd p)) (matcher a p))"
      by simp
    from "5.IH"(2)[OF m' m(3)] m(2) show ?thesis by simp
  qed
next
  case (6 a p)
  show ?case
  proof (cases "q = p")
    case True
    then show ?thesis by simp
  next
    case False
    with "6.prems" obtain m where m: "m \<in> set (matcher a p)"
      "length (snd m) < length (snd p)" "q \<in> set (matcher (Lazy a) m)"
      by (auto simp: in_matcher_Lazy[of q a p])
    from m(1,2) have m': "m \<in> set (filter (\<lambda>q. length (snd q) < length (snd p)) (matcher a p))"
      by simp
    from "6.IH"(2)[OF m' m(3)] m(2) show ?thesis by simp
  qed
next
  case (7 a p)
  then show ?case by auto
next
  case (8 a p)
  then show ?case by auto
next
  case (9 p)
  then show ?case by (simp split: option.splits if_splits)
next
  case (10 p)
  then show ?case by (simp split: list.splits if_splits)
next
  case (11 p)
  then show ?case by (simp split: option.splits)
next
  case (12 p)
  then show ?case by (simp split: list.splits)
next
  case (13 p)
  then show ?case by (simp split: if_splits)
next
  case (14 p)
  then show ?case by (simp split: if_splits)
next
  case (15 a p)
  then show ?case by (simp split: list.splits)
next
  case (16 a p)
  then show ?case by (simp split: list.splits)
qed

lemma matcher_length: "q \<in> set (matcher r p) \<Longrightarrow> length (snd q) \<le> length (snd p)"
  using matcher_minlen[of q r p] by simp

lemma matcher_take:
  assumes "q \<in> set (matcher r p)"
  shows "take (length (snd p) - length (snd q)) (snd p) @ snd q = snd p"
proof -
  from matcher_after[OF assms] obtain ys where "snd p = ys @ snd q"
    by (auto simp: after_def)
  then show ?thesis by simp
qed

lemma scan_fail:
  "matcher r p = [] \<Longrightarrow>
   scan r p = (case snd p of [] \<Rightarrow> [] | x # t \<Rightarrow> Keep x # scan r (Some x, t))"
  by (subst scan.simps) simp

lemma scan_hit:
  "matcher r p = q # qs \<Longrightarrow> length (snd q) < length (snd p) \<Longrightarrow>
   scan r p = Hit (take (length (snd p) - length (snd q)) (snd p)) # scan r q"
  by (subst scan.simps) simp

lemma scan_hit_empty:
  "matcher r p = q # qs \<Longrightarrow> \<not> length (snd q) < length (snd p) \<Longrightarrow>
   scan r p = Hit [] # (case snd p of [] \<Rightarrow> [] | x # t \<Rightarrow> Keep x # scan r (Some x, t))"
  by (subst scan.simps) simp

lemma scan_text: "concat (map piece_text (scan r p)) = snd p"
proof (induction "length (snd p)" arbitrary: p rule: less_induct)
  case less
  have step: "concat (map piece_text
                 (case snd p of [] \<Rightarrow> [] | x # t \<Rightarrow> Keep x # scan r (Some x, t))) = snd p"
  proof (cases "snd p")
    case Nil
    then show ?thesis by simp
  next
    case (Cons x t)
    then have "concat (map piece_text (scan r (Some x, t))) = t"
      using less[of "(Some x, t)"] by simp
    with Cons show ?thesis by simp
  qed
  show ?case
  proof (cases "matcher r p")
    case Nil
    with step show ?thesis by (simp add: scan_fail)
  next
    case (Cons q qs)
    then have q: "q \<in> set (matcher r p)" by simp
    show ?thesis
    proof (cases "length (snd q) < length (snd p)")
      case True
      with less[of q] have "concat (map piece_text (scan r q)) = snd q" by simp
      with True Cons matcher_take[OF q] show ?thesis
        by (simp add: scan_hit)
    next
      case False
      with Cons step show ?thesis by (simp add: scan_hit_empty)
    qed
  qed
qed

lemma scan_hit_minlen: "Hit m \<in> set (scan r p) \<Longrightarrow> minlen r \<le> length m"
proof (induction "length (snd p)" arbitrary: p rule: less_induct)
  case less
  have step: "minlen r \<le> length m"
    if "Hit m \<in> set (case snd p of [] \<Rightarrow> [] | x # t \<Rightarrow> Keep x # scan r (Some x, t))"
  proof (cases "snd p")
    case Nil
    with that show ?thesis by simp
  next
    case (Cons x t)
    with that have "Hit m \<in> set (scan r (Some x, t))" by simp
    with Cons show ?thesis using less(1)[of "(Some x, t)"] by simp
  qed
  show ?case
  proof (cases "matcher r p")
    case Nil
    with less(2) step show ?thesis by (simp add: scan_fail)
  next
    case (Cons q qs)
    then have q: "q \<in> set (matcher r p)" by simp
    show ?thesis
    proof (cases "length (snd q) < length (snd p)")
      case True
      with Cons less(2)
      have "m = take (length (snd p) - length (snd q)) (snd p) \<or> Hit m \<in> set (scan r q)"
        by (simp add: scan_hit)
      then show ?thesis
      proof
        assume "m = take (length (snd p) - length (snd q)) (snd p)"
        with matcher_minlen[OF q] show ?thesis by simp
      next
        assume "Hit m \<in> set (scan r q)"
        with True show ?thesis using less(1)[of q] by simp
      qed
    next
      case False
      with matcher_minlen[OF q] have "minlen r = 0" by simp
      then show ?thesis by simp
    qed
  qed
qed

section \<open>The callback and the loop of the third pattern\<close>

lemma split_lf_nonempty: "split_lf s \<noteq> []"
  by (induction s) (auto split: list.splits)

lemma complexReplacer_eq:
  "complexReplacer m =
     Inr (if str_includes m (js ''{'') \<or> str_includes m (js ''function'') then m else [])"
proof (cases "split_lf m")
  case Nil
  with split_lf_nonempty show ?thesis by blast
next
  case (Cons l ls)
  then show ?thesis by (simp add: complexReplacer_def)
qed

lemma replace_pieces_total:
  assumes "\<And>m. f m = Inr (g m)"
  shows "replace_pieces f ps =
           Inr (concat (map (\<lambda>p. case p of Keep c \<Rightarrow> [c] | Hit m \<Rightarrow> g m) ps))"
proof (induction ps)
  case Nil
  show ?case by simp
next
  case (Cons p ps)
  then show ?case by (cases p) (simp_all add: assms)
qed

lemma complexPass_eq:
  "complexPass re s =
     Inr (concat (map (\<lambda>p. case p of
                          Keep c \<Rightarrow> [c]
                        | Hit m \<Rightarrow> if str_includes m (js ''{'') \<or> str_includes m (js ''function'')
                                   then m else [])
                   (scan re (None, s))))"
  unfolding complexPass_def replace_fn_def
  by (rule replace_pieces_total) (rule complexReplacer_eq)

lemma complexPass_total: "\<exists>s'. complexPass re s = Inr s'"
  by (simp add: complexPass_eq)

lemma complexPass_Nil: "complexPass re [] = Inr []"
proof (cases "matcher re (None, [])")
  case Nil
  then show ?thesis by (simp add: complexPass_eq scan_fail)
next
  case (Cons q qs)
  then have "q \<in> set (matcher re (None, []))" by simp
  then have "length (snd q) \<le> length (snd (None :: 16 word option, [] :: jsstring))"
    by (rule matcher_length)
  then have "\<not> length (snd q) < length (snd (None :: 16 word option, [] :: jsstring))" by simp
  from scan_hit_empty[OF Cons this] show ?thesis
    by (simp add: complexPass_eq js_def)
qed

lemma length_pieces:
  assumes "\<And>m. Hit m \<in> set ps \<Longrightarrow> length (g m) \<le> length m"
  shows "length (concat (map (\<lambda>p. case p of Keep c \<Rightarrow> [c] | Hit m \<Rightarrow> g m) ps))
           \<le> length (concat (map piece_text ps))"
  using assms
proof (induction ps)
  case Nil
  show ?case by simp
next
  case (Cons p ps)
  then have IH: "length (concat (map (\<lambda>p. case p of Keep c \<Rightarrow> [c] | Hit m \<Rightarrow> g m) ps))
           \<le> length (concat (map piece_text ps))" by simp
  show ?case
  proof (cases p)
    case (Keep c)
    with IH show ?thesis by simp
  next
    case (Hit m)
    with Cons.prems[of m] have "length (g m) \<le> length m" by simp
    with Hit IH show ?thesis by simp
  qed
qed

lemma subst_as_case: "subst rep = (\<lambda>p. case p of Keep c \<Rightarrow> [c] | Hit m \<Rightarrow> rep)"
  by (rule ext) (simp split: piece.splits)

lemma length_replace_str:
  assumes "length rep \<le> minlen r"
  shows "length (replace_str r rep s) \<le> length s"
proof -
  have "length (concat (map (\<lambda>p. case p of Keep c \<Rightarrow> [c] | Hit m \<Rightarrow> rep) (scan r (None, s))))
          \<le> length (concat (map piece_text (scan r (None, s))))"
  proof (rule length_pieces)
    fix m assume "Hit m \<in> set (scan r (None, s))"
    then have "minlen r \<le> length m" by (rule scan_hit_minlen)
    with assms show "length rep \<le> length m" by simp
  qed
  then show ?thesis by (simp add: replace_str_def subst_as_case scan_text)
qed

lemma length_replace_erase: "length (replace_str r [] s) \<le> length s"
  by (rule length_replace_str) simp

lemma length_complexPass:
  assumes "complexPass re s = Inr s'"
  shows "length s' \<le> length s"
proof -
  let ?g = "\<lambda>m. if str_includes m (js ''{'') \<or> str_includes m (js ''function'') then m else []"
  have "length (concat (map (\<lambda>p. case p of Keep c \<Rightarrow> [c] | Hit m \<Rightarrow> ?g m)
                 (scan re (None, s))))
          \<le> length (concat (map piece_text (scan re (None, s))))"
    by (rule length_pieces) simp
  with assms show ?thesis by (simp add: complexPass_eq scan_text)
qed


lemma complexLoop_length:
  "complexLoop c prev r it = Inr (res, n) \<Longrightarrow> length res \<le> length r"
proof (induction c prev r it rule: complexLoop.induct)
  case (1 c prev r it)
  show ?case
  proof (cases "prev \<noteq> r \<and> it < maxIterations")
    case False
    with "1.prems" show ?thesis by (subst (asm) complexLoop.simps) auto
  next
    case True
    show ?thesis
    proof (cases c)
      case (Inl x)
      with True "1.prems" show ?thesis by (subst (asm) complexLoop.simps) simp
    next
      case (Inr re)
      from complexPass_total obtain r' where r': "complexPass re r = Inr r'" by blast
      with True Inr "1.prems" have "complexLoop c r r' (it + 1) = Inr (res, n)"
        by (subst (asm) complexLoop.simps) simp
      with "1.IH"[OF True Inr r'] have "length res \<le> length r'" by simp
      moreover from r' have "length r' \<le> length r" by (rule length_complexPass)
      ultimately show ?thesis by simp
    qed
  qed
qed

lemma complexLoop_general:
  "\<exists>res n. complexLoop (Inr re) prev r it = Inr (res, it + n)
     \<and> (it \<le> maxIterations \<longrightarrow> it + n \<le> maxIterations)
     \<and> passes n re r = Inr res
     \<and> (it + n < maxIterations \<longrightarrow> (if n = 0 then prev = r else complexPass re res = Inr res))
     \<and> (0 < n \<longrightarrow> prev \<noteq> r)
     \<and> (\<forall>k. Suc k < n \<longrightarrow> passes (Suc k) re r \<noteq> passes k re r)"
proof (induction "Inr re :: error + regex" prev r it rule: complexLoop.induct)
  case (1 prev r it)
  show ?case
  proof (cases "prev \<noteq> r \<and> it < maxIterations")
    case False
    then have "complexLoop (Inr re) prev r it = Inr (r, it + 0)"
      by (subst complexLoop.simps) auto
    moreover from False have "it + 0 < maxIterations \<longrightarrow> prev = r" by auto
    ultimately show ?thesis
      by (intro exI[of _ r] exI[of _ 0]) simp
  next
    case True
    from complexPass_total obtain r' where r': "complexPass re r = Inr r'" by blast
    from "1.hyps"[OF True refl r'] obtain res n where
      loop: "complexLoop (Inr re) r r' (it + 1) = Inr (res, it + 1 + n)"
      and bound: "it + 1 \<le> maxIterations \<longrightarrow> it + 1 + n \<le> maxIterations"
      and iter: "passes n re r' = Inr res"
      and stable: "it + 1 + n < maxIterations \<longrightarrow> (if n = 0 then r = r' else complexPass re res = Inr res)"
      and first: "0 < n \<longrightarrow> r \<noteq> r'"
      and chg: "\<forall>k. Suc k < n \<longrightarrow> passes (Suc k) re r' \<noteq> passes k re r'"
      by blast
    have 1: "complexLoop (Inr re) prev r it = Inr (res, it + Suc n)"
      using True r' loop by (subst complexLoop.simps) simp
    have 2: "it \<le> maxIterations \<longrightarrow> it + Suc n \<le> maxIterations"
      using True bound by simp
    have 3: "passes (Suc n) re r = Inr res"
      using r' iter by simp
    have 4: "it + Suc n < maxIterations \<longrightarrow> complexPass re res = Inr res"
    proof
      assume lt: "it + Suc n < maxIterations"
      show "complexPass re res = Inr res"
      proof (cases "n = 0")
        case True
        with stable lt iter r' show ?thesis by simp
      next
        case False
        with stable lt show ?thesis by simp
      qed
    qed
    have 5: "\<forall>k. Suc k < Suc n \<longrightarrow> passes (Suc k) re r \<noteq> passes k re r"
    proof (intro allI impI)
      fix k assume k: "Suc k < Suc n"
      show "passes (Suc k) re r \<noteq> passes k re r"
      proof (cases k)
        case 0
        with k first r' show ?thesis by simp
      next
        case (Suc j)
        with k chg have "passes (Suc j) re r' \<noteq> passes j re r'" by simp
        with Suc r' show ?thesis by simp
      qed
    qed
    from 1 2 3 4 5 True show ?thesis
      by (intro exI[of _ res] exI[of _ "Suc n"]) simp
  qed
qed

lemma positions_self: "q \<in> set (positions q)"
  by (cases q rule: positions.cases) simp_all

lemma positions_trans:
  "q \<in> set (positions p) \<Longrightarrow> r \<in> set (positions q) \<Longrightarrow> r \<in> set (positions p)"
  by (induction p rule: positions.induct) auto

lemma after_positions: "after p ys q \<Longrightarrow> q \<in> set (positions p)"
proof (induction ys arbitrary: p)
  case Nil
  then have "q = p" by (simp add: after_def prod_eq_iff)
  then show ?case by (simp add: positions_self)
next
  case (Cons y ys)
  obtain c t where p: "p = (c, t)" by (cases p)
  from Cons.prems p have t: "t = y # ys @ snd q" by (simp add: after_def)
  from Cons.prems have "after (Some y, ys @ snd q) ys q" by (simp add: after_def)
  then have "q \<in> set (positions (Some y, ys @ snd q))" by (rule Cons.IH)
  with p t show ?case by simp
qed

lemma matcher_positions: "q \<in> set (matcher r p) \<Longrightarrow> q \<in> set (positions p)"
  using matcher_after after_positions by blast

lemma scan_Keep:
  "(\<And>q. q \<in> set (positions (p, t)) \<Longrightarrow> matcher r q = []) \<Longrightarrow> scan r (p, t) = map Keep t"
proof (induction t arbitrary: p)
  case Nil
  then have "matcher r (p, []) = []" by simp
  then show ?case by (simp add: scan_fail)
next
  case (Cons x t)
  from Cons.prems have m: "matcher r (p, x # t) = []" by simp
  have "scan r (Some x, t) = map Keep t"
  proof (rule Cons.IH)
    fix q assume "q \<in> set (positions (Some x, t))"
    then show "matcher r q = []" using Cons.prems by simp
  qed
  with m show ?case by (simp add: scan_fail)
qed

lemma hits_Nil_matcher:
  "hits (scan r (p, t)) = [] \<Longrightarrow> q \<in> set (positions (p, t)) \<Longrightarrow> matcher r q = []"
proof (induction t arbitrary: p)
  case Nil
  show ?case
  proof (cases "matcher r (p, [])")
    case Nil
    with Nil.prems show ?thesis by simp
  next
    case (Cons a as)
    with Nil.prems(1) show ?thesis
      by (cases "length (snd a) < length (snd (p, []::jsstring))")
         (simp_all add: scan_hit[OF Cons] scan_hit_empty[OF Cons])
  qed
next
  case (Cons x t)
  show ?case
  proof (cases "matcher r (p, x # t)")
    case Nil
    with Cons.prems(1) have h: "hits (scan r (Some x, t)) = []" by (simp add: scan_fail)
    from Cons.prems(2) have "q = (p, x # t) \<or> q \<in> set (positions (Some x, t))" by simp
    then show ?thesis
    proof
      assume "q = (p, x # t)"
      with Nil show ?thesis by simp
    next
      assume "q \<in> set (positions (Some x, t))"
      with h show ?thesis by (rule Cons.IH)
    qed
  next
    case (Cons a as)
    with Cons.prems(1) show ?thesis
      by (cases "length (snd a) < length (snd (p, x # t))")
         (simp_all add: scan_hit[OF Cons] scan_hit_empty[OF Cons])
  qed
qed

lemma concat_subst_Keep: "concat (map (subst rep \<circ> Keep) t) = t"
  by (induction t) simp_all

lemma replace_pieces_Keep: "replace_pieces f (map Keep t) = Inr t"
  by (induction t) simp_all

lemma replace_str_no_match:
  assumes "match_all r T = None"
  shows "replace_str r rep T = T"
proof -
  from assms have h: "hits (scan r (None, T)) = []"
    by (simp add: match_all_def split: list.splits)
  have "scan r (None, T) = map Keep T"
    by (rule scan_Keep) (rule hits_Nil_matcher[OF h])
  then show ?thesis by (simp add: replace_str_def concat_subst_Keep)
qed

lemma passes_fixpoint: "complexPass re T = Inr T \<Longrightarrow> passes n re T = Inr T"
  by (induction n) simp_all

lemma complexLoop_fixpoint:
  assumes "complexPass re T = Inr T"
  shows "\<exists>n. complexLoop (Inr re) prev T it = Inr (T, n)"
proof -
  from complexLoop_general[of re prev T it] obtain res n where
    "complexLoop (Inr re) prev T it = Inr (res, it + n)" "passes n re T = Inr res" by blast
  with passes_fixpoint[OF assms, of n] show ?thesis by auto
qed

section \<open>The clean-up of blank lines\<close>

lemma white_space_LF: "is_white_space 0x0A"
  by code_simp

lemma lfs_Nil: "lfs [] = 0"
  by (simp add: lfs_def)

lemma lfs_Cons:
  "lfs (x # t) = (if is_white_space x then (if x = 0x0A then Suc (lfs t) else lfs t) else 0)"
  by (cases "is_white_space x") (simp_all add: lfs_def)

lemma skip_lfs_id: "lfs t = 0 \<Longrightarrow> skip_lfs t = t"
  by (cases t) simp_all

lemma lfs_skip_lfs: "lfs (skip_lfs t) = 0"
  by (induction t) (simp_all add: lfs_Nil)

lemma length_skip_lfs: "length (skip_lfs t) \<le> length t"
  by (induction t) (simp_all add: le_SucI)

lemma star_atom_seq_Nil:
  "matcher (Seq (Star (Atom c)) b) (p, []) = matcher b (p, [])"
  by (simp add: matcher.simps(5)[of "Atom c" "(p, [])"])

lemma star_atom_seq_Cons:
  "matcher (Seq (Star (Atom c)) b) (p, x # t) =
     (if in_cls c x then matcher (Seq (Star (Atom c)) b) (Some x, t) else [])
       @ matcher b (p, x # t)"
  by (simp add: matcher.simps(5)[of "Atom c" "(p, x # t)"])

lemma atom_seq_Nil: "matcher (Seq (Atom c) b) (p, []) = []"
  by simp

lemma atom_seq_Cons:
  "matcher (Seq (Atom c) b) (p, x # t) = (if in_cls c x then matcher b (Some x, t) else [])"
  by simp

lemma atom_Cons:
  "matcher (Atom c) (p, x # t) = (if in_cls c x then [(Some x, t)] else [])"
  by simp

lemmas seq_unfold = star_atom_seq_Nil star_atom_seq_Cons atom_seq_Nil atom_seq_Cons

lemma more_lines_match:
  "matcher (more_lines k) (p, t) =
     (if k < lfs t then (Some 0x0A, skip_lfs t) # tl (matcher (more_lines k) (p, t)) else [])"
proof (induction k arbitrary: p t)
  case 0
  show ?case
  proof (induction t arbitrary: p)
    case Nil
    show ?case by (simp add: seq_unfold lfs_Nil del: matcher.simps(3))
  next
    case (Cons x t)
    show ?case
    proof (cases "is_white_space x")
      case False
      then have "x \<noteq> 0x0A" using white_space_LF by auto
      with False show ?thesis by (simp add: seq_unfold lfs_Cons del: matcher.simps(3))
    next
      case True
      note ws = this
      show ?thesis
      proof (cases "0 < lfs t")
        case True
        with Cons[of "Some x"] obtain qs where
          "matcher (more_lines 0) (Some x, t) = (Some 0x0A, skip_lfs t) # qs"
          by (cases "matcher (more_lines 0) (Some x, t)") (auto split: if_splits)
        with ws True show ?thesis
          by (simp add: seq_unfold lfs_Cons del: matcher.simps(3))
      next
        case False
        with Cons[of "Some x"] have "matcher (more_lines 0) (Some x, t) = []"
          by (simp split: if_splits)
        with ws False show ?thesis
          by (simp add: seq_unfold lfs_Cons skip_lfs_id del: matcher.simps(3))
      qed
    qed
  qed
next
  case (Suc k)
  show ?case
  proof (induction t arbitrary: p)
    case Nil
    show ?case by (simp add: seq_unfold lfs_Nil del: matcher.simps(3))
  next
    case (Cons x t)
    show ?case
    proof (cases "is_white_space x")
      case False
      then have "x \<noteq> 0x0A" using white_space_LF by auto
      with False show ?thesis by (simp add: seq_unfold lfs_Cons del: matcher.simps(3))
    next
      case True
      note ws = this
      show ?thesis
      proof (cases "Suc k < lfs t")
        case True
        with Cons[of "Some x"] obtain qs where
          "matcher (more_lines (Suc k)) (Some x, t) = (Some 0x0A, skip_lfs t) # qs"
          by (cases "matcher (more_lines (Suc k)) (Some x, t)") (auto split: if_splits)
        with ws True show ?thesis
          by (simp add: seq_unfold lfs_Cons del: matcher.simps(3))
      next
        case False
        with Cons[of "Some x"] have none: "matcher (more_lines (Suc k)) (Some x, t) = []"
          by (simp split: if_splits)
        show ?thesis
        proof (cases "x = 0x0A \<and> k < lfs t")
          case True
          with Suc[of "Some 0x0A" t] obtain qs where
            "matcher (more_lines k) (Some 0x0A, t) = (Some 0x0A, skip_lfs t) # qs"
            by (cases "matcher (more_lines k) (Some 0x0A, t)") (auto split: if_splits)
          with ws True False none show ?thesis
            by (simp add: seq_unfold lfs_Cons del: matcher.simps(3))
        next
          case False
          note F2 = this
          have "matcher (Seq (Atom (Lit 0x0A)) (more_lines k)) (p, x # t) = []"
          proof (cases "x = 0x0A")
            case True
            with F2 have "\<not> k < lfs t" by simp
            with Suc[of "Some 0x0A" t] have "matcher (more_lines k) (Some 0x0A, t) = []"
              by (simp split: if_splits)
            with True show ?thesis by (simp add: seq_unfold del: matcher.simps(3))
          next
            case False
            then show ?thesis by (simp add: seq_unfold del: matcher.simps(3))
          qed
          with ws F2 \<open>\<not> Suc k < lfs t\<close> none show ?thesis
            by (auto simp add: seq_unfold lfs_Cons simp del: matcher.simps(3))
        qed
      qed
    qed
  qed
qed

lemma blankRunPattern_eq: "blankRunPattern = Seq (Atom (Lit 0x0A)) (more_lines 2)"
  by (simp add: blankRunPattern_def numeral_2_eq_2)

lemma matcher_blankRun_Nil: "matcher blankRunPattern (p, []) = []"
  by (simp add: blankRunPattern_eq)

lemma matcher_blankRun_Cons:
  "matcher blankRunPattern (p, x # t) =
     (if x = 0x0A \<and> 3 \<le> lfs t
      then (Some 0x0A, skip_lfs t) # tl (matcher (more_lines 2) (Some 0x0A, t))
      else [])"
proof (cases "x = 0x0A")
  case False
  then show ?thesis by (simp add: blankRunPattern_eq seq_unfold del: matcher.simps(3))
next
  case True
  have "matcher blankRunPattern (p, x # t) = matcher (more_lines 2) (Some 0x0A, t)"
    using True by (simp add: blankRunPattern_eq seq_unfold del: matcher.simps(3))
  also have "\<dots> = (if 2 < lfs t
      then (Some 0x0A, skip_lfs t) # tl (matcher (more_lines 2) (Some 0x0A, t)) else [])"
    by (rule more_lines_match)
  finally show ?thesis using True by (simp add: Suc_le_eq numeral_3_eq_3 numeral_2_eq_2)
qed

lemma collapse_from_Nil: "collapse_from p [] = []"
  by (simp add: collapse_from_def scan_fail matcher_blankRun_Nil)

lemma matcher_blankRun_none:
  assumes "\<not> (x = 0x0A \<and> 3 \<le> lfs t)"
  shows "matcher blankRunPattern (p, x # t) = []"
  by (simp only: matcher_blankRun_Cons if_not_P[OF assms])

lemma collapse_from_keep:
  assumes "\<not> (x = 0x0A \<and> 3 \<le> lfs t)"
  shows "collapse_from p (x # t) = x # collapse_from (Some x) t"
  using matcher_blankRun_none[OF assms, of p]
  by (simp add: collapse_from_def scan_fail)

lemma collapse_from_hit:
  assumes "x = 0x0A \<and> 3 \<le> lfs t"
  shows "collapse_from p (x # t) = js ''\<newline>\<newline>\<newline>'' @ collapse_from (Some 0x0A) (skip_lfs t)"
proof -
  have m: "matcher blankRunPattern (p, x # t) =
             (Some 0x0A, skip_lfs t) # tl (matcher (more_lines 2) (Some 0x0A, t))"
    by (simp only: matcher_blankRun_Cons if_P[OF assms])
  have "length (snd (Some (0x0A::16 word), skip_lfs t)) < length (snd (p, x # t))"
    using length_skip_lfs[of t] by simp
  from scan_hit[OF m this] show ?thesis
    by (simp add: collapse_from_def)
qed

lemma lfs_newlines: "lfs (js ''\<newline>\<newline>\<newline>'' @ s) = 3 + lfs s"
  by (simp add: js_def lfs_Cons white_space_LF)

lemma lfs_collapse_from: "lfs (collapse_from p t) = min 3 (lfs t)"
proof (induction "length t" arbitrary: p t rule: less_induct)
  case less
  show ?case
  proof (cases t)
    case Nil
    then show ?thesis by (simp add: collapse_from_Nil lfs_Nil)
  next
    case (Cons x t')
    show ?thesis
    proof (cases "x = 0x0A \<and> 3 \<le> lfs t'")
      case True
      have "length (skip_lfs t') < length t" using Cons length_skip_lfs[of t'] by simp
      then have "lfs (collapse_from (Some 0x0A) (skip_lfs t')) = min 3 (lfs (skip_lfs t'))"
        by (rule less)
      then have "lfs (collapse_from (Some 0x0A) (skip_lfs t')) = 0"
        by (simp add: lfs_skip_lfs)
      then have "lfs (collapse_from p (x # t')) = 3"
        by (simp only: collapse_from_hit[OF True] lfs_newlines)
      moreover from True have "min 3 (lfs (x # t')) = 3"
        by (simp add: lfs_Cons white_space_LF)
      ultimately show ?thesis using Cons by simp
    next
      case False
      have "lfs (collapse_from (Some x) t') = min 3 (lfs t')"
        using Cons by (intro less) simp
      then have "lfs (x # collapse_from (Some x) t') = min 3 (lfs (x # t'))"
        using False by (auto simp add: lfs_Cons)
      then have "lfs (collapse_from p (x # t')) = min 3 (lfs (x # t'))"
        by (simp only: collapse_from_keep[OF False])
      with Cons show ?thesis by simp
    qed
  qed
qed

lemma run_free_collapse_from: "run_free (collapse_from p t)"
proof (induction "length t" arbitrary: p t rule: less_induct)
  case less
  show ?case
  proof (cases t)
    case Nil
    then show ?thesis by (simp add: collapse_from_Nil)
  next
    case (Cons x t')
    show ?thesis
    proof (cases "x = 0x0A \<and> 3 \<le> lfs t'")
      case True
      let ?c = "collapse_from (Some 0x0A) (skip_lfs t')"
      have len: "length (skip_lfs t') < length t" using Cons length_skip_lfs[of t'] by simp
      then have rf: "run_free ?c" by (rule less)
      have "lfs ?c = min 3 (lfs (skip_lfs t'))" by (rule lfs_collapse_from)
      then have z: "lfs ?c = 0" by (simp add: lfs_skip_lfs)
      have "run_free (0x0A # 0x0A # 0x0A # ?c)"
        using rf z by (simp add: lfs_Cons white_space_LF)
      then have "run_free (js ''\<newline>\<newline>\<newline>'' @ ?c)" by (simp add: js_def)
      then have "run_free (collapse_from p (x # t'))"
        by (simp only: collapse_from_hit[OF True])
      with Cons show ?thesis by simp
    next
      case False
      have rf: "run_free (collapse_from (Some x) t')"
        using Cons by (intro less) simp
      have "lfs (collapse_from p t) = min 3 (lfs t)" by (rule lfs_collapse_from)
      then have "lfs (collapse_from p (x # t')) \<le> 3" using Cons by simp
      then have "lfs (x # collapse_from (Some x) t') \<le> 3"
        by (simp only: collapse_from_keep[OF False])
      with rf have "run_free (x # collapse_from (Some x) t')" by simp
      then have "run_free (collapse_from p (x # t'))"
        by (simp only: collapse_from_keep[OF False])
      with Cons show ?thesis by simp
    qed
  qed
qed

lemma run_free_no_match:
  "run_free t \<Longrightarrow> q \<in> set (positions (p, t)) \<Longrightarrow> matcher blankRunPattern q = []"
proof (induction t arbitrary: p)
  case Nil
  then show ?case by (simp add: matcher_blankRun_Nil)
next
  case (Cons x t)
  from Cons.prems(2) have "q = (p, x # t) \<or> q \<in> set (positions (Some x, t))" by simp
  then show ?case
  proof
    assume q: "q = (p, x # t)"
    from Cons.prems(1) have "lfs (x # t) \<le> 3" by simp
    then have "\<not> (x = 0x0A \<and> 3 \<le> lfs t)" by (auto simp add: lfs_Cons white_space_LF)
    then have "matcher blankRunPattern (p, x # t) = []"
      by (rule matcher_blankRun_none)
    with q show ?thesis by simp
  next
    assume "q \<in> set (positions (Some x, t))"
    moreover from Cons.prems(1) have "run_free t" by simp
    ultimately show ?thesis using Cons.IH by blast
  qed
qed

lemma blank_white_space: "blank x \<Longrightarrow> is_white_space x"
  by (auto simp: blank_def is_white_space_def)

lemma blank_not_terminator: "blank x \<Longrightarrow> \<not> is_line_terminator x"
  by (auto simp: blank_def is_line_terminator_def)

lemma blank_not_LF: "blank x \<Longrightarrow> x \<noteq> 0x0A"
  by (auto simp: blank_def)

lemma blank_not_bol: "blank x \<Longrightarrow> \<not> bol (Some x)"
  by (simp add: bol_def blank_not_terminator)

lemma star_blank_eol:
  "matcher (Seq (Star (Atom (OneOf [Single 0x20, Single 0x09]))) Eol) (p, t) =
     (if eol (dropWhile blank t)
      then [(if takeWhile blank t = [] then p else Some (last (takeWhile blank t)),
             dropWhile blank t)]
      else [])"
proof (induction t arbitrary: p)
  case Nil
  show ?case by (simp add: seq_unfold eol_def del: matcher.simps(3))
next
  case (Cons x t)
  show ?case
  proof (cases "blank x")
    case True
    then have "\<not> is_line_terminator x" by (rule blank_not_terminator)
    with True Cons[of "Some x"] show ?thesis
      by (simp add: seq_unfold blank_def[symmetric] del: matcher.simps(3) in_cls.simps)
  next
    case False
    then show ?thesis
      by (simp add: seq_unfold blank_def[symmetric] eol_def del: matcher.simps(3) in_cls.simps)
  qed
qed

lemma concat_map_concat: "concat (map f (concat xss)) = concat (map (\<lambda>xs. concat (map f xs)) xss)"
  by (induction xss) simp_all

lemma seq_assoc: "matcher (Seq (Seq a b) c) p = matcher (Seq a (Seq b c)) p"
proof -
  have "matcher (Seq b c) = (\<lambda>x. concat (map (matcher c) (matcher b x)))"
    by (rule ext) simp
  then show ?thesis by (simp add: concat_map_concat comp_def)
qed

lemma blankLinePattern_eq:
  "blankLinePattern =
     Seq Bol (Seq (Seq (Atom (OneOf [Single 0x20, Single 0x09]))
                       (Star (Atom (OneOf [Single 0x20, Single 0x09])))) Eol)"
  by (simp add: blankLinePattern_def)

lemma bol_seq: "matcher (Seq Bol r) (p, t) = (if bol p then matcher r (p, t) else [])"
  by (simp add: bol_def split: option.splits)

lemma matcher_blankLine_Nil: "matcher blankLinePattern (p, []) = []"
  by (simp only: blankLinePattern_eq bol_seq seq_assoc atom_seq_Nil if_cancel)

lemma matcher_blankLine_Cons:
  "matcher blankLinePattern (p, x # t) =
     (if bol p \<and> blank x \<and> eol (dropWhile blank t)
      then [(Some (last (x # takeWhile blank t)), dropWhile blank t)]
      else [])"
  by (simp add: blankLinePattern_eq bol_seq seq_assoc atom_seq_Cons star_blank_eol
                blank_def[symmetric]
           del: matcher.simps(3) in_cls.simps)

lemma strip_from_Nil: "strip_from p [] = []"
  by (simp add: strip_from_def scan_fail matcher_blankLine_Nil)

lemma matcher_blankLine_none:
  assumes "\<not> (bol p \<and> blank x \<and> eol (dropWhile blank t))"
  shows "matcher blankLinePattern (p, x # t) = []"
  by (simp only: matcher_blankLine_Cons if_not_P[OF assms])

lemma strip_from_keep:
  assumes "\<not> (bol p \<and> blank x \<and> eol (dropWhile blank t))"
  shows "strip_from p (x # t) = x # strip_from (Some x) t"
  using matcher_blankLine_none[OF assms]
  by (simp add: strip_from_def scan_fail)

lemma strip_from_hit:
  assumes "bol p \<and> blank x \<and> eol (dropWhile blank t)"
  shows "strip_from p (x # t) =
           strip_from (Some (last (x # takeWhile blank t))) (dropWhile blank t)"
proof -
  have m: "matcher blankLinePattern (p, x # t) =
             [(Some (last (x # takeWhile blank t)), dropWhile blank t)]"
    by (simp only: matcher_blankLine_Cons if_P[OF assms])
  have "length (snd (Some (last (x # takeWhile blank t)), dropWhile blank t))
          < length (snd (p, x # t))"
    using length_dropWhile_le[of blank t] by simp
  from scan_hit[OF m this] show ?thesis
    by (simp add: strip_from_def)
qed

lemma last_blank: "blank x \<Longrightarrow> blank (last (x # takeWhile blank t))"
proof (induction t arbitrary: x)
  case Nil
  then show ?case by simp
next
  case (Cons y t)
  then show ?case by (cases "blank y") simp_all
qed

lemma lfs_Cons_cong: "lfs s = lfs t \<Longrightarrow> lfs (x # s) = lfs (x # t)"
  by (simp add: lfs_Cons)

lemma lfs_dropWhile_blank: "lfs (dropWhile blank t) = lfs t"
proof (induction t)
  case Nil
  show ?case by simp
next
  case (Cons x t)
  show ?case
  proof (cases "blank x")
    case True
    with Cons blank_white_space[OF True] blank_not_LF[OF True] show ?thesis
      by (simp add: lfs_Cons)
  next
    case False
    then show ?thesis by simp
  qed
qed

lemma run_free_dropWhile: "run_free t \<Longrightarrow> run_free (dropWhile P t)"
  by (induction t) simp_all

lemma lfs_strip_from: "lfs (strip_from p t) = lfs t"
proof (induction "length t" arbitrary: p t rule: less_induct)
  case less
  show ?case
  proof (cases t)
    case Nil
    then show ?thesis by (simp add: strip_from_Nil)
  next
    case (Cons x t')
    show ?thesis
    proof (cases "bol p \<and> blank x \<and> eol (dropWhile blank t')")
      case True
      then have b: "blank x" by simp
      have "length (dropWhile blank t') < length t"
        using Cons length_dropWhile_le[of blank t'] by simp
      then have "lfs (strip_from (Some (last (x # takeWhile blank t'))) (dropWhile blank t'))
                   = lfs (dropWhile blank t')"
        by (rule less)
      then have "lfs (strip_from p (x # t')) = lfs t'"
        by (simp only: strip_from_hit[OF True] lfs_dropWhile_blank)
      moreover have "lfs (x # t') = lfs t'"
        using blank_white_space[OF b] blank_not_LF[OF b] by (simp add: lfs_Cons)
      ultimately show ?thesis using Cons by simp
    next
      case False
      have "lfs (strip_from (Some x) t') = lfs t'"
        using Cons by (intro less) simp
      then have "lfs (x # strip_from (Some x) t') = lfs (x # t')"
        by (rule lfs_Cons_cong)
      then have "lfs (strip_from p (x # t')) = lfs (x # t')"
        by (simp only: strip_from_keep[OF False])
      with Cons show ?thesis by simp
    qed
  qed
qed

lemma run_free_strip_from: "run_free t \<Longrightarrow> run_free (strip_from p t)"
proof (induction "length t" arbitrary: p t rule: less_induct)
  case less
  show ?case
  proof (cases t)
    case Nil
    then show ?thesis by (simp add: strip_from_Nil)
  next
    case (Cons x t')
    show ?thesis
    proof (cases "bol p \<and> blank x \<and> eol (dropWhile blank t')")
      case True
      have len: "length (dropWhile blank t') < length t"
        using Cons length_dropWhile_le[of blank t'] by simp
      from less.prems Cons have "run_free (dropWhile blank t')"
        by (simp add: run_free_dropWhile)
      with len have "run_free (strip_from (Some (last (x # takeWhile blank t'))) (dropWhile blank t'))"
        by (rule less.hyps)
      then have "run_free (strip_from p (x # t'))"
        by (simp only: strip_from_hit[OF True])
      with Cons show ?thesis by simp
    next
      case False
      from less.prems Cons have rf: "run_free t'" and l: "lfs (x # t') \<le> 3" by simp_all
      have "run_free (strip_from (Some x) t')"
        using Cons rf by (intro less.hyps) simp_all
      moreover have "lfs (strip_from p (x # t')) = lfs (x # t')" by (rule lfs_strip_from)
      then have "lfs (x # strip_from (Some x) t') \<le> 3"
        using l by (simp only: strip_from_keep[OF False])
      ultimately have "run_free (x # strip_from (Some x) t')" by simp
      then have "run_free (strip_from p (x # t'))"
        by (simp only: strip_from_keep[OF False])
      with Cons show ?thesis by simp
    qed
  qed
qed

lemma eol_strip_from:
  "\<not> bol (Some c) \<Longrightarrow>
   eol (dropWhile blank (strip_from (Some c) t)) = eol (dropWhile blank t)"
proof (induction t arbitrary: c)
  case Nil
  show ?case by (simp add: strip_from_Nil)
next
  case (Cons x t)
  from Cons.prems have keep: "\<not> (bol (Some c) \<and> blank x \<and> eol (dropWhile blank t))" by simp
  show ?case
  proof (cases "blank x")
    case True
    then have "\<not> bol (Some x)" by (rule blank_not_bol)
    then have "eol (dropWhile blank (strip_from (Some x) t)) = eol (dropWhile blank t)"
      by (rule Cons.IH)
    with True show ?thesis by (simp add: strip_from_keep[OF keep])
  next
    case False
    then show ?thesis by (simp add: strip_from_keep[OF keep] eol_def)
  qed
qed

lemma line_free_strip_from: "line_free p (strip_from p t)"
proof (induction "length t" arbitrary: p t rule: less_induct)
  case less
  show ?case
  proof (cases t)
    case Nil
    then show ?thesis by (simp add: strip_from_Nil)
  next
    case (Cons x t')
    show ?thesis
    proof (cases "bol p \<and> blank x \<and> eol (dropWhile blank t')")
      case True
      let ?b = "last (x # takeWhile blank t')"
      let ?u = "dropWhile blank t'"
      from True have "blank x" by simp
      then have "blank ?b" by (rule last_blank)
      then have nb: "\<not> bol (Some ?b)" by (rule blank_not_bol)
      have "line_free p (strip_from (Some ?b) ?u)"
      proof (cases ?u)
        case Nil
        show ?thesis by (simp only: Nil strip_from_Nil line_free.simps)
      next
        case (Cons y u')
        with True have lt: "is_line_terminator y" by (simp add: eol_def)
        then have ny: "\<not> blank y" using blank_not_terminator by blast
        from nb have keep: "\<not> (bol (Some ?b) \<and> blank y \<and> eol (dropWhile blank u'))" by simp
        have "length u' < length t"
          using Cons \<open>t = x # t'\<close> length_dropWhile_le[of blank t'] by simp
        then have "line_free (Some y) (strip_from (Some y) u')" by (rule less)
        with ny have "line_free p (y # strip_from (Some y) u')" by simp
        then have "line_free p (strip_from (Some ?b) (y # u'))"
          by (simp only: strip_from_keep[OF keep])
        then show ?thesis by (simp only: Cons)
      qed
      then have "line_free p (strip_from p (x # t'))"
        by (simp only: strip_from_hit[OF True])
      with Cons show ?thesis by simp
    next
      case False
      have IH: "line_free (Some x) (strip_from (Some x) t')"
        using Cons by (intro less) simp
      have "\<not> (bol p \<and> blank x \<and> eol (dropWhile blank (strip_from (Some x) t')))"
      proof (cases "blank x")
        case True
        then have "\<not> bol (Some x)" by (rule blank_not_bol)
        then have "eol (dropWhile blank (strip_from (Some x) t')) = eol (dropWhile blank t')"
          by (rule eol_strip_from)
        with False show ?thesis by simp
      next
        case False
        then show ?thesis by simp
      qed
      with IH have "line_free p (x # strip_from (Some x) t')" by simp
      then have "line_free p (strip_from p (x # t'))"
        by (simp only: strip_from_keep[OF False])
      with Cons show ?thesis by simp
    qed
  qed
qed

lemma line_free_no_match:
  "line_free p t \<Longrightarrow> q \<in> set (positions (p, t)) \<Longrightarrow> matcher blankLinePattern q = []"
proof (induction t arbitrary: p)
  case Nil
  then show ?case by (simp add: matcher_blankLine_Nil)
next
  case (Cons x t)
  from Cons.prems(2) have "q = (p, x # t) \<or> q \<in> set (positions (Some x, t))" by simp
  then show ?case
  proof
    assume q: "q = (p, x # t)"
    from Cons.prems(1) have "\<not> (bol p \<and> blank x \<and> eol (dropWhile blank t))" by simp
    then have "matcher blankLinePattern (p, x # t) = []" by (rule matcher_blankLine_none)
    with q show ?thesis by simp
  next
    assume "q \<in> set (positions (Some x, t))"
    moreover from Cons.prems(1) have "line_free (Some x) t" by simp
    ultimately show ?thesis using Cons.IH by blast
  qed
qed

lemma cleanup_fixpoint:
  fixes X :: jsstring
  defines "V \<equiv> replace_str blankLinePattern [] (replace_str blankRunPattern (js ''\<newline>\<newline>\<newline>'') X)"
  shows "replace_str blankLinePattern [] (replace_str blankRunPattern (js ''\<newline>\<newline>\<newline>'') V) = V"
proof -
  have V: "V = strip_from None (collapse_from None X)"
    by (simp add: V_def replace_str_def strip_from_def collapse_from_def)
  have "run_free V" unfolding V by (rule run_free_strip_from) (rule run_free_collapse_from)
  then have "scan blankRunPattern (None, V) = map Keep V"
    by (intro scan_Keep) (rule run_free_no_match)
  then have 1: "replace_str blankRunPattern (js ''\<newline>\<newline>\<newline>'') V = V"
    by (simp add: replace_str_def concat_subst_Keep)
  have "line_free None V" unfolding V by (rule line_free_strip_from)
  then have "scan blankLinePattern (None, V) = map Keep V"
    by (intro scan_Keep) (rule line_free_no_match)
  then have 2: "replace_str blankLinePattern [] V = V"
    by (simp add: replace_str_def concat_subst_Keep)
  from 1 2 show ?thesis by simp
qed

section \<open>The patterns for method names without pattern syntax\<close>

lemma then_tok_Inr: "then_tok t (Inr ts) = Inr (t # ts)"
  by (simp add: then_tok_def)

lemma then_toks_Inr: "then_toks ts (Inr ts') = Inr (ts @ ts')"
  by (simp add: then_toks_def)

lemma then_toks_Nil: "then_toks [] rest = rest"
  by (simp add: then_toks_def split: sum.splits)

lemma then_toks_Cons: "then_toks (t # ts) rest = then_tok t (then_toks ts rest)"
  by (simp add: then_toks_def then_tok_def split: sum.splits)

lemma then_toks_append: "then_toks (ts @ us) rest = then_toks ts (then_toks us rest)"
  by (simp add: then_toks_def split: sum.splits)

lemma lex_plain_char:
  "\<not> is_syntax_char c \<Longrightarrow> lex f (c # r) = then_tok (TAtom (Lit c)) (lex f r)"
  by (subst lex.simps) (simp add: is_syntax_char_def)

lemma lex_plain:
  "plain_name n \<Longrightarrow> lex f (n @ r) = then_toks (map (\<lambda>c. TAtom (Lit c)) n) (lex f r)"
proof (induction n)
  case Nil
  show ?case by (simp add: then_toks_Nil)
next
  case (Cons c n)
  then have c: "\<not> is_syntax_char c" and n: "plain_name n" by (simp_all add: plain_name_def)
  from Cons.IH[OF n] show ?case
    by (simp add: lex_plain_char[OF c] then_toks_Cons)
qed

lemma lex_bar: "lex f (0x7C # r) = then_tok TBar (lex f r)"
  by (subst lex.simps) simp

lemma lex_names:
  "plain_names M \<Longrightarrow> lex f (join M @ r) = then_toks (name_tokens M) (lex f r)"
proof (induction M rule: join.induct)
  case 1
  show ?case by (simp add: then_toks_Nil)
next
  case (2 m)
  then show ?case by (simp add: plain_names_def lex_plain)
next
  case (3 m m' ms)
  then have m: "plain_name m" and rest: "plain_names (m' # ms)" by (simp_all add: plain_names_def)
  from "3.IH"[OF rest] show ?case
    by (simp add: lex_plain[OF m] lex_bar then_toks_append then_toks_Cons)
qed

lemma names_not_question: "plain_names M \<Longrightarrow> \<not> starts 0x3F (join M @ 0x29 # r)"
proof (induction M rule: join.induct)
  case 1
  show ?case by (simp add: starts_def)
next
  case (2 m)
  then show ?case
    by (cases m) (auto simp: starts_def plain_names_def plain_name_def is_syntax_char_def)
next
  case (3 m m' ms)
  then show ?case
    by (cases m) (auto simp: starts_def plain_names_def plain_name_def is_syntax_char_def)
qed

lemma lex_group:
  "plain_names M \<Longrightarrow>
   lex f (0x28 # join M @ 0x29 # r) =
     then_tok (TOpen Capture) (then_toks (name_tokens M) (then_tok TClose (lex f r)))"
proof -
  assume M: "plain_names M"
  have "lex f (0x29 # r) = then_tok TClose (lex f r)" by (subst lex.simps) simp
  with M show ?thesis
    by (subst lex.simps) (simp add: names_not_question lex_names)
qed

lemma parse_name:
  "parse_tokens (st, alts, terms, q) (map (\<lambda>c. TAtom (Lit c)) n @ ts) =
     parse_tokens (st, alts, rev (name_terms n) @ terms, q \<or> n \<noteq> []) ts"
proof (induction n arbitrary: terms q)
  case Nil
  show ?case by (simp add: name_terms_def)
next
  case (Cons c n)
  show ?case using Cons[of "Atom (Lit c) # terms" True]
    by (simp add: name_terms_def)
qed

lemma parse_names:
  assumes "M \<noteq> []"
  shows "parse_tokens ((opn, palts, pterms) # st, alts, [], q) (name_tokens M @ TClose # ts) =
           parse_tokens (st, palts,
             group opn (disj (rev alts @ map (\<lambda>n. seqs (name_terms n)) M)) # pterms, True) ts"
  using assms
proof (induction M arbitrary: alts q rule: name_tokens.induct)
  case 1
  then show ?case by simp
next
  case (2 n)
  show ?case
    by (simp add: parse_name disjunction_def)
next
  case (3 n n' ns)
  have "parse_tokens ((opn, palts, pterms) # st, alts, [], q)
          (name_tokens (n # n' # ns) @ TClose # ts) =
        parse_tokens ((opn, palts, pterms) # st, seqs (name_terms n) # alts, [], False)
          (name_tokens (n' # ns) @ TClose # ts)"
    by (simp add: parse_name)
  also have "\<dots> = parse_tokens (st, palts,
       group opn (disj (rev (seqs (name_terms n) # alts)
                          @ map (\<lambda>n. seqs (name_terms n)) (n' # ns))) # pterms, True) ts"
    by (rule "3.IH") simp
  finally show ?case by simp
qed

lemma parse_group:
  "parse_tokens ((Capture, palts, pterms) # st, [], [], q) (name_tokens M @ TClose # ts) =
     parse_tokens (st, palts, names_group M # pterms, True) ts"
proof (cases "M = []")
  case True
  then show ?thesis by (simp add: names_group_def disjunction_def name_terms_def)
next
  case False
  then show ?thesis
    using parse_names[OF False, of Capture palts pterms st "[]" q ts]
    by (simp add: names_group_def)
qed

lemmas compile_simps =
  RegExp_def rx_def js_def flags_of_def lex.simps lex_class.simps class_atom_def
  class_atom_escape_def atom_escape_def class_escape_def control_escape_def starts_def
  is_letter_def is_digit_def is_single_def single_value_def quant_of_def braced_def
  then_tok_Inr then_toks_Inr lex_names parse_group disjunction_def
  call_head_def name_terms_def

lemma lex_close: "lex f (0x29 # r) = then_tok TClose (lex f r)"
  by (subst lex.simps) simp

lemma countPattern_plain:
  assumes "plain_names M"
  shows "countPattern M = Inr (seqs (call_head M))"
  using assms names_not_question[OF assms]
  by (simp add: countPattern_def compile_simps)

lemma singleLinePattern_plain:
  assumes "plain_names M"
  shows "singleLinePattern M =
           Inr (seqs ([Bol, Star (Atom (OneOf [Single 0x20, Single 0x09]))] @ call_head M
                      @ [Star (Atom (NoneOf [Single 0x3B])), Atom (Lit 0x29),
                         Star (Atom (Esc Space)), Opt (Atom (Lit 0x3B)),
                         Star (Atom (Esc Space)), Eol]))"
  using assms names_not_question[OF assms]
  by (simp add: singleLinePattern_def compile_simps)

lemma multiLinePattern_plain:
  assumes "plain_names M"
  shows "multiLinePattern M =
           Inr (seqs ([Bol, Star (Atom (OneOf [Single 0x20, Single 0x09]))] @ call_head M
                      @ [Star (Atom (NoneOf [Single 0x29])),
                         Star (seqs [Atom (Lit 0x28), Star (Atom (NoneOf [Single 0x29])),
                                     Atom (Lit 0x29), Star (Atom (NoneOf [Single 0x29]))]),
                         Atom (Lit 0x29),
                         Star (Atom (Esc Space)), Opt (Atom (Lit 0x3B)),
                         Star (Atom (Esc Space)), Eol]))"
  using assms names_not_question[OF assms]
  by (simp add: multiLinePattern_def compile_simps)

lemma complexPattern_plain:
  assumes "plain_names M"
  shows "complexPattern M =
           Inr (seqs ([] @ call_head M
                      @ [Lazy (Atom (NoneOf [Single 0x3B, Single 0x7B, Single 0x7D])),
                         Atom (Lit 0x29), Star (Atom (Esc Space)), Opt (Atom (Lit 0x3B))]))"
  using assms names_not_question[OF assms]
  by (simp add: complexPattern_def compile_simps)

lemma commentedPattern_plain:
  assumes "plain_names M"
  shows "commentedPattern M =
           Inr (seqs ([Bol, Star (Atom (OneOf [Single 0x20, Single 0x09])),
                       Atom (Lit 0x2F), Atom (Lit 0x2F), Star (Atom (Esc Space))]
                      @ call_head M @ [Star (Atom Dot), Eol]))"
  using assms names_not_question[OF assms]
  by (simp add: commentedPattern_def compile_simps)

lemma blockCommentPattern_plain:
  assumes "plain_names M"
  shows "blockCommentPattern M =
           Inr (seqs ([Atom (Lit 0x2F), Atom (Lit 0x2A), Lazy (Atom (OneOf [Space, NotSpace]))]
                      @ call_head M
                      @ [Lazy (Atom (OneOf [Space, NotSpace])), Atom (Lit 0x2A),
                         Atom (Lit 0x2F)]))"
  using assms names_not_question[OF assms]
  by (simp add: blockCommentPattern_def compile_simps)

lemma literal_patterns:
  "RegExp (rx ''%n%s*%n%s*%n%s*%n'') ''g'' = Inr blankRunPattern"
  "RegExp (rx ''^[ %t]+$'') ''gm'' = Inr blankLinePattern"
  by code_simp+

section \<open>The passes of \<^verbatim>\<open>removeConsoleLogs\<close>\<close>

lemma matcher_seqs_Cons:
  "set (matcher (seqs (r # rs)) p) = (\<Union>m \<in> set (matcher r p). set (matcher (seqs rs) m))"
  by (cases rs) simp_all

lemma matcher_seqs_append:
  "e \<in> set (matcher (seqs (xs @ ys)) p) \<longleftrightarrow>
     (\<exists>m \<in> set (matcher (seqs xs) p). e \<in> set (matcher (seqs ys) m))"
proof (induction xs arbitrary: p)
  case Nil
  show ?case by simp
next
  case (Cons x xs)
  have "e \<in> set (matcher (seqs ((x # xs) @ ys)) p) \<longleftrightarrow>
          (\<exists>k \<in> set (matcher x p). e \<in> set (matcher (seqs (xs @ ys)) k))"
    using matcher_seqs_Cons[of x "xs @ ys" p] by simp
  also have "\<dots> \<longleftrightarrow> (\<exists>k \<in> set (matcher x p). \<exists>m \<in> set (matcher (seqs xs) k).
                          e \<in> set (matcher (seqs ys) m))"
    using Cons.IH by simp
  also have "\<dots> \<longleftrightarrow> (\<exists>m \<in> set (matcher (seqs (x # xs)) p). e \<in> set (matcher (seqs ys) m))"
    using matcher_seqs_Cons[of x xs p] by auto
  finally show ?case .
qed

lemma seqs_contains:
  assumes "e \<in> set (matcher (seqs (pre @ mid @ post)) p)"
  shows "\<exists>q \<in> set (positions p). matcher (seqs mid) q \<noteq> []"
proof -
  from assms obtain m1 where m1: "m1 \<in> set (matcher (seqs pre) p)"
    and e: "e \<in> set (matcher (seqs (mid @ post)) m1)"
    using matcher_seqs_append[of e pre "mid @ post" p] by blast
  from e obtain m2 where "m2 \<in> set (matcher (seqs mid) m1)"
    using matcher_seqs_append[of e mid post m1] by blast
  then have "matcher (seqs mid) m1 \<noteq> []" by auto
  with matcher_positions[OF m1] show ?thesis by blast
qed

lemma no_call_no_match:
  assumes none: "hits (scan (seqs mid) (None, T)) = []"
    and q: "q \<in> set (positions (None, T))"
  shows "matcher (seqs (pre @ mid @ post)) q = []"
proof (rule ccontr)
  assume "matcher (seqs (pre @ mid @ post)) q \<noteq> []"
  then obtain e where "e \<in> set (matcher (seqs (pre @ mid @ post)) q)"
    by (cases "matcher (seqs (pre @ mid @ post)) q") auto
  then obtain q' where q': "q' \<in> set (positions q)" "matcher (seqs mid) q' \<noteq> []"
    using seqs_contains by blast
  from q q'(1) have "q' \<in> set (positions (None, T))" by (rule positions_trans)
  with none have "matcher (seqs mid) q' = []" by (rule hits_Nil_matcher)
  with q'(2) show False by simp
qed

lemma scan_no_call:
  assumes "hits (scan (seqs mid) (None, T)) = []"
  shows "scan (seqs (pre @ mid @ post)) (None, T) = map Keep T"
  by (rule scan_Keep) (rule no_call_no_match[OF assms])

lemma replace_str_no_call:
  assumes "hits (scan (seqs mid) (None, T)) = []"
  shows "replace_str (seqs (pre @ mid @ post)) rep T = T"
  by (simp add: replace_str_def scan_no_call[OF assms] concat_subst_Keep)

lemma complexPass_no_call:
  assumes "hits (scan (seqs mid) (None, T)) = []"
  shows "complexPass (seqs (pre @ mid @ post)) T = Inr T"
  by (simp add: complexPass_def replace_fn_def scan_no_call[OF assms] replace_pieces_Keep)

lemma countConsoleLogs_plain:
  assumes "plain_names M"
  shows "countConsoleLogs M (Inr T) = Inr (length (hits (scan (seqs (call_head M)) (None, T))))"
  by (simp add: countConsoleLogs_def countPattern_plain[OF assms] match_all_def
           split: list.splits)

lemma removeConsoleLogs_no_call:
  assumes M: "plain_names M" and count: "countConsoleLogs M (Inr T) = Inr 0"
  shows "removeConsoleLogs M T = Inr (cleanup T)"
proof -
  from count have none: "hits (scan (seqs (call_head M)) (None, T)) = []"
    by (simp add: countConsoleLogs_plain[OF M])
  have 1: "replace_new (singleLinePattern M) [] T = Inr T"
    by (simp only: replace_new_def singleLinePattern_plain[OF M] sum.case replace_str_no_call[OF none])
  have 2: "replace_new (multiLinePattern M) [] T = Inr T"
    by (simp only: replace_new_def multiLinePattern_plain[OF M] sum.case replace_str_no_call[OF none])
  have "complexPass (seqs ([] @ call_head M
                      @ [Lazy (Atom (NoneOf [Single 0x3B, Single 0x7B, Single 0x7D])),
                         Atom (Lit 0x29), Star (Atom (Esc Space)), Opt (Atom (Lit 0x3B))])) T
          = Inr T"
    using none by (rule complexPass_no_call)
  then obtain n where 3: "complexLoop (complexPattern M) [] T 0 = Inr (T, n)"
    using complexLoop_fixpoint by (simp only: complexPattern_plain[OF M]) blast
  have 4: "replace_new (commentedPattern M) [] T = Inr T"
    by (simp only: replace_new_def commentedPattern_plain[OF M] sum.case replace_str_no_call[OF none])
  have 5: "replace_new (blockCommentPattern M) [] T = Inr T"
    by (simp only: replace_new_def blockCommentPattern_plain[OF M] sum.case replace_str_no_call[OF none])
  show ?thesis
    by (simp add: removeConsoleLogs_def 1 2 3 4 5 cleanup_def)
qed

lemma removeConsoleLogs_Inr:
  assumes "removeConsoleLogs M T = Inr U"
  obtains re1 re2 re4 re5 r3 n where
    "singleLinePattern M = Inr re1" "multiLinePattern M = Inr re2"
    "complexLoop (complexPattern M) [] (replace_str re2 [] (replace_str re1 [] T)) 0 = Inr (r3, n)"
    "commentedPattern M = Inr re4" "blockCommentPattern M = Inr re5"
    "U = cleanup (replace_str re5 [] (replace_str re4 [] r3))"
  using assms
  by (auto simp: removeConsoleLogs_def replace_new_def cleanup_def Let_def
           split: sum.splits prod.splits)


lemma length_cleanup: "length (cleanup s) \<le> length s"
proof -
  have "length (replace_str blankRunPattern (js ''\<newline>\<newline>\<newline>'') s) \<le> length s"
    by (rule length_replace_str) (simp add: blankRunPattern_def js_def)
  moreover have "length (cleanup s)
      \<le> length (replace_str blankRunPattern (js ''\<newline>\<newline>\<newline>'') s)"
    unfolding cleanup_def by (rule length_replace_erase)
  ultimately show ?thesis by simp
qed

lemma removeConsoleLogs_length:
  assumes "removeConsoleLogs M T = Inr U"
  shows "length U \<le> length T"
proof -
  from assms obtain re1 re2 re4 re5 r3 n where
    loop: "complexLoop (complexPattern M) [] (replace_str re2 [] (replace_str re1 [] T)) 0
             = Inr (r3, n)"
    and U: "U = cleanup (replace_str re5 [] (replace_str re4 [] r3))"
    by (rule removeConsoleLogs_Inr)
  have "length U \<le> length (replace_str re5 [] (replace_str re4 [] r3))"
    unfolding U by (rule length_cleanup)
  also have "\<dots> \<le> length (replace_str re4 [] r3)" by (rule length_replace_erase)
  also have "\<dots> \<le> length r3" by (rule length_replace_erase)
  also have "\<dots> \<le> length (replace_str re2 [] (replace_str re1 [] T))"
    using loop by (rule complexLoop_length)
  also have "\<dots> \<le> length (replace_str re1 [] T)" by (rule length_replace_erase)
  also have "\<dots> \<le> length T" by (rule length_replace_erase)
  finally show ?thesis .
qed


lemma pieces_length:
  assumes "\<And>m. g m = m \<or> g m = []"
  shows "length (concat (map piece_text ps))
           = length (concat (map (\<lambda>p. case p of Keep c \<Rightarrow> [c] | Hit m \<Rightarrow> g m) ps))
             + length (concat (filter (\<lambda>m. g m \<noteq> m) (hits ps)))"
proof (induction ps)
  case Nil
  show ?case by simp
next
  case (Cons p ps)
  show ?case
  proof (cases p)
    case (Keep c)
    with Cons show ?thesis by simp
  next
    case (Hit m)
    with Cons assms[of m] show ?thesis by (cases "g m = m") auto
  qed
qed

lemma pieces_same:
  "list_all (\<lambda>m. g m = m) (hits ps) \<Longrightarrow>
   concat (map (\<lambda>p. case p of Keep c \<Rightarrow> [c] | Hit m \<Rightarrow> g m) ps) = concat (map piece_text ps)"
proof (induction ps)
  case Nil
  show ?case by simp
next
  case (Cons p ps)
  then show ?case by (cases p) simp_all
qed

lemma pieces_same_length:
  assumes g: "\<And>m. g m = m \<or> g m = []"
    and len: "length (concat (map (\<lambda>p. case p of Keep c \<Rightarrow> [c] | Hit m \<Rightarrow> g m) ps))
                = length (concat (map piece_text ps))"
  shows "list_all (\<lambda>m. g m = m) (hits ps)"
proof -
  from pieces_length[of g ps, OF g] len
  have "concat (filter (\<lambda>m. g m \<noteq> m) (hits ps)) = []" by simp
  then have e: "\<forall>m \<in> set (hits ps). g m \<noteq> m \<longrightarrow> m = []" by auto
  have "\<forall>m \<in> set (hits ps). g m = m"
  proof
    fix m assume m: "m \<in> set (hits ps)"
    show "g m = m"
    proof (rule ccontr)
      assume n: "g m \<noteq> m"
      with e m have "m = []" by blast
      with g[of m] n show False by auto
    qed
  qed
  then show ?thesis by (simp add: list_all_iff)
qed

lemma replace_erase_same:
  "list_all (\<lambda>m. m = []) (hits (scan re (None, s))) \<Longrightarrow> replace_str re [] s = s"
proof -
  assume "list_all (\<lambda>m. m = []) (hits (scan re (None, s)))"
  then have "list_all (\<lambda>m. (\<lambda>m. []) m = m) (hits (scan re (None, s)))"
    by (simp add: list_all_iff eq_commute)
  then have "concat (map (\<lambda>p. case p of Keep c \<Rightarrow> [c] | Hit m \<Rightarrow> []) (scan re (None, s)))
               = concat (map piece_text (scan re (None, s)))"
    by (rule pieces_same)
  then show ?thesis by (simp add: replace_str_def subst_as_case scan_text)
qed

lemma replace_erase_same_length:
  assumes "length (replace_str re [] s) = length s"
  shows "list_all (\<lambda>m. m = []) (hits (scan re (None, s)))"
proof -
  from assms have "length (concat (map (\<lambda>p. case p of Keep c \<Rightarrow> [c] | Hit m \<Rightarrow> (\<lambda>m. []) m)
                                     (scan re (None, s))))
                     = length (concat (map piece_text (scan re (None, s))))"
    by (simp add: replace_str_def subst_as_case scan_text)
  then have "list_all (\<lambda>m. (\<lambda>m. []) m = m) (hits (scan re (None, s)))"
    by (rule pieces_same_length[rotated]) simp
  then show ?thesis by (simp add: list_all_iff eq_commute)
qed

lemma complexPass_same:
  assumes "list_all (\<lambda>m. m = [] \<or> keeps m) (hits (scan re (None, s)))"
  shows "complexPass re s = Inr s"
proof -
  let ?g = "\<lambda>m. if str_includes m (js ''{'') \<or> str_includes m (js ''function'') then m else []"
  from assms have "list_all (\<lambda>m. ?g m = m) (hits (scan re (None, s)))"
    by (auto simp: list_all_iff keeps_def)
  then have "concat (map (\<lambda>p. case p of Keep c \<Rightarrow> [c] | Hit m \<Rightarrow> ?g m) (scan re (None, s)))
               = concat (map piece_text (scan re (None, s)))"
    by (rule pieces_same)
  then show ?thesis by (simp add: complexPass_eq scan_text)
qed

lemma complexPass_same_length:
  assumes "complexPass re s = Inr s'" and "length s' = length s"
  shows "list_all (\<lambda>m. m = [] \<or> keeps m) (hits (scan re (None, s)))"
proof -
  let ?g = "\<lambda>m. if str_includes m (js ''{'') \<or> str_includes m (js ''function'') then m else []"
  from assms have "length (concat (map (\<lambda>p. case p of Keep c \<Rightarrow> [c] | Hit m \<Rightarrow> ?g m)
                                     (scan re (None, s))))
                     = length (concat (map piece_text (scan re (None, s))))"
    by (simp add: complexPass_eq scan_text)
  then have "list_all (\<lambda>m. ?g m = m) (hits (scan re (None, s)))"
    by (rule pieces_same_length[rotated]) simp
  then show ?thesis by (auto simp: list_all_iff keeps_def split: if_splits)
qed

lemma passes_length: "passes n re s = Inr res \<Longrightarrow> length res \<le> length s"
proof (induction n arbitrary: s)
  case 0
  then show ?case by simp
next
  case (Suc n)
  obtain s' where s': "complexPass re s = Inr s'" by (simp add: complexPass_eq)
  with Suc.prems have "passes n re s' = Inr res" by simp
  then have "length res \<le> length s'" by (rule Suc.IH)
  with length_complexPass[OF s'] show ?case by simp
qed

lemma complexLoop_same_length:
  assumes loop: "complexLoop (Inr re) [] r 0 = Inr (res, n)" and len: "length res = length r"
  shows "list_all (\<lambda>m. m = [] \<or> keeps m) (hits (scan re (None, r)))"
proof -
  from complexLoop_general[of re "[]" r 0] obtain res' k where
    l: "complexLoop (Inr re) [] r 0 = Inr (res', 0 + k)"
    and p: "passes k re r = Inr res'"
    and z: "0 + k < maxIterations \<longrightarrow> (if k = 0 then [] = r else complexPass re res' = Inr res')"
    by blast
  from l loop have res': "res' = res" by simp
  obtain s' where s': "complexPass re r = Inr s'" by (simp add: complexPass_eq)
  have "length s' = length r"
  proof (cases k)
    case 0
    with z have "r = []" by (simp add: maxIterations_def)
    with s' show ?thesis by (simp add: complexPass_Nil)
  next
    case (Suc j)
    with p s' res' have "passes j re s' = Inr res" by simp
    then have "length res \<le> length s'" by (rule passes_length)
    with length_complexPass[OF s'] len show ?thesis by simp
  qed
  with s' show ?thesis by (rule complexPass_same_length)
qed

lemma removeConsoleLogs_nothing_to_erase:
  assumes "nothing_to_erase M s"
  shows "removeConsoleLogs M s = Inr (cleanup s)"
proof -
  from assms obtain re1 re2 re4 re5 where
    p: "singleLinePattern M = Inr re1" "multiLinePattern M = Inr re2"
       "commentedPattern M = Inr re4" "blockCommentPattern M = Inr re5"
    and m: "list_all (\<lambda>m. m = []) (hits (scan re1 (None, s)))"
       "list_all (\<lambda>m. m = []) (hits (scan re2 (None, s)))"
       "list_all (\<lambda>m. m = []) (hits (scan re4 (None, s)))"
       "list_all (\<lambda>m. m = []) (hits (scan re5 (None, s)))"
    and k: "only_kept (complexPattern M) s"
    by (auto simp: nothing_to_erase_def erases_nothing_def split: sum.splits)
  have "\<exists>n. complexLoop (complexPattern M) [] s 0 = Inr (s, n)"
  proof (cases "complexPattern M")
    case (Inl e)
    with k have "s = []" by (simp add: only_kept_def)
    then show ?thesis by (subst complexLoop.simps) simp
  next
    case (Inr re3)
    with k have "complexPass re3 s = Inr s" by (simp add: only_kept_def complexPass_same)
    with Inr show ?thesis using complexLoop_fixpoint by simp
  qed
  then obtain n where 3: "complexLoop (complexPattern M) [] s 0 = Inr (s, n)" ..
  show ?thesis
    by (simp add: removeConsoleLogs_def replace_new_def p 3 cleanup_def
          replace_erase_same[OF m(1)] replace_erase_same[OF m(2)]
          replace_erase_same[OF m(3)] replace_erase_same[OF m(4)])
qed

lemma removeConsoleLogs_same_length:
  assumes run: "removeConsoleLogs M s = Inr U" and len: "length U = length s"
  shows "nothing_to_erase M s"
proof -
  from run obtain re1 re2 re4 re5 r3 n where
    p: "singleLinePattern M = Inr re1" "multiLinePattern M = Inr re2"
       "commentedPattern M = Inr re4" "blockCommentPattern M = Inr re5"
    and loop: "complexLoop (complexPattern M) [] (replace_str re2 [] (replace_str re1 [] s)) 0
                 = Inr (r3, n)"
    and U: "U = cleanup (replace_str re5 [] (replace_str re4 [] r3))"
    by (rule removeConsoleLogs_Inr)
  have c: "length U \<le> length (replace_str re5 [] (replace_str re4 [] r3))"
    unfolding U by (rule length_cleanup)
  have l5: "length (replace_str re5 [] (replace_str re4 [] r3)) \<le> length (replace_str re4 [] r3)"
    by (rule length_replace_erase)
  have l4: "length (replace_str re4 [] r3) \<le> length r3" by (rule length_replace_erase)
  have l3: "length r3 \<le> length (replace_str re2 [] (replace_str re1 [] s))"
    using loop by (rule complexLoop_length)
  have l2: "length (replace_str re2 [] (replace_str re1 [] s)) \<le> length (replace_str re1 [] s)"
    by (rule length_replace_erase)
  have l1: "length (replace_str re1 [] s) \<le> length s" by (rule length_replace_erase)
  from c l5 l4 l3 l2 l1 len have "length (replace_str re1 [] s) = length s" by simp
  then have e1: "list_all (\<lambda>m. m = []) (hits (scan re1 (None, s)))"
    by (rule replace_erase_same_length)
  then have s1: "replace_str re1 [] s = s" by (rule replace_erase_same)
  from c l5 l4 l3 l2 len s1 have "length (replace_str re2 [] s) = length s" by simp
  then have e2: "list_all (\<lambda>m. m = []) (hits (scan re2 (None, s)))"
    by (rule replace_erase_same_length)
  then have s2: "replace_str re2 [] s = s" by (rule replace_erase_same)
  from loop s1 s2 have loop': "complexLoop (complexPattern M) [] s 0 = Inr (r3, n)" by simp
  from c l5 l4 l3 len s1 s2 have len3: "length r3 = length s" by simp
  have k: "only_kept (complexPattern M) s \<and> r3 = s"
  proof (cases "complexPattern M")
    case (Inl e)
    with loop' have "s = [] \<and> r3 = s"
      by (subst (asm) complexLoop.simps) (auto simp: maxIterations_def split: if_splits)
    with Inl show ?thesis by (simp add: only_kept_def)
  next
    case (Inr re3)
    with loop' len3 have a: "list_all (\<lambda>m. m = [] \<or> keeps m) (hits (scan re3 (None, s)))"
      by (simp add: complexLoop_same_length)
    then have "complexPass re3 s = Inr s" by (rule complexPass_same)
    then obtain n' where "complexLoop (Inr re3) [] s 0 = Inr (s, n')"
      using complexLoop_fixpoint by blast
    with loop' Inr have "r3 = s" by simp
    with a Inr show ?thesis by (simp add: only_kept_def)
  qed
  from c l5 l4 len k have "length (replace_str re4 [] s) = length s" by simp
  then have e4: "list_all (\<lambda>m. m = []) (hits (scan re4 (None, s)))"
    by (rule replace_erase_same_length)
  then have s4: "replace_str re4 [] s = s" by (rule replace_erase_same)
  from c len k s4 have "length (replace_str re5 [] s) = length s"
    using length_replace_erase[of re5 s] by simp
  then have e5: "list_all (\<lambda>m. m = []) (hits (scan re5 (None, s)))"
    by (rule replace_erase_same_length)
  from e1 e2 k e4 e5 p show ?thesis
    by (simp add: nothing_to_erase_def erases_nothing_def)
qed

lemma cleanup_cleanup: "cleanup (cleanup s) = cleanup s"
  unfolding cleanup_def by (rule cleanup_fixpoint)

text \<open>
  What the clean-up does reach: in the result no white space holds more than three line
  feeds, so at most two blank lines stand between two lines of the result.
\<close>

lemma removeConsoleLogs_run_free:
  assumes "removeConsoleLogs M T = Inr U"
  shows "run_free U"
proof -
  from assms obtain Y where "U = cleanup Y"
    by (rule removeConsoleLogs_Inr)
  then have "U = strip_from None (collapse_from None Y)"
    by (simp add: cleanup_def replace_str_def strip_from_def collapse_from_def)
  then show ?thesis
    by (simp add: run_free_strip_from run_free_collapse_from)
qed

text \<open>
  A name with pattern syntax makes the count and the removal disagree: with the name
  \<^verbatim>\<open>log$\<close> the count pattern, under the flags \<^verbatim>\<open>gs\<close>, matches only at the end of the
  text, while the first pattern, under \<^verbatim>\<open>gm\<close>, matches at the end of a line.
\<close>

lemma name_with_pattern_syntax:
  "countConsoleLogs [js ''log$''] (Inr (js ''console.log\<newline>(1)'')) = Inr 0
   \<and> removeConsoleLogs [js ''log$''] (js ''console.log\<newline>(1)'') = Inr []"
  by code_simp

section \<open>Evaluations at the inputs the specification names\<close>

text \<open>
  C6. Counting in the text \<^verbatim>\<open>console.log(\n  'multi',\n  'line'\n);\<close> with the method
  set \<open>{log}\<close> gives exactly 1: the call whose arguments run over several lines is one
  occurrence of \<^verbatim>\<open>console.log(\<close>.
\<close>

theorem count_multi_line_call:
  "countConsoleLogs [js ''log'']
     (Inr (js ''console.log(\<newline>  'multi',\<newline>  'line'\<newline>);'')) = Inr 1"
  by code_simp

text \<open>
  C3. At \<^verbatim>\<open>const a = 1;\nconsole.log(a);\nconst b = 2;\<close> with \<open>{log}\<close> the result is not
  \<^verbatim>\<open>const a = 1;\nconst b = 2;\<close>.
\<close>

theorem single_line_example_counterexample:
  "removeConsoleLogs [js ''log''] (js ''const a = 1;\<newline>console.log(a);\<newline>const b = 2;'')
     \<noteq> Inr (js ''const a = 1;\<newline>const b = 2;'')"
  by code_simp

text \<open>
  C3, as the code has it. The result is \<^verbatim>\<open>const a = 1;\n\nconst b = 2;\<close>: the
  single-line pass erases the text of the matched line and keeps the line terminator
  after it, so an empty line stays between the two neighbouring lines, which are intact.
\<close>

theorem single_line_example_keeps_terminator:
  "replace_new (singleLinePattern [js ''log'']) []
       (js ''const a = 1;\<newline>console.log(a);\<newline>const b = 2;'')
     = Inr (js ''const a = 1;\<newline>\<newline>const b = 2;'')
   \<and> removeConsoleLogs [js ''log''] (js ''const a = 1;\<newline>console.log(a);\<newline>const b = 2;'')
     = Inr (js ''const a = 1;\<newline>\<newline>const b = 2;'')"
  by code_simp

text \<open>
  C5. At \<^verbatim>\<open>// console.log('x');\nconst a = 1;\<close> with \<open>{log}\<close> the function returns
  \<^verbatim>\<open>// \nconst a = 1;\<close>: the loop of the third pattern runs before the fourth pattern
  and erases the call inside the comment, so the comment marker stays and the fourth
  pattern finds no commented call any more. Applied to the input itself, the fourth
  pattern erases the comment line (and keeps its line terminator). Without the
  semicolon the third pattern takes the line feed with the call, and the statement of
  the next line ends up behind the comment marker: \<^verbatim>\<open>// const a = 1;\<close>.
\<close>

theorem commented_line_leaves_marker:
  "removeConsoleLogs [js ''log''] (js ''// console.log('x');\<newline>const a = 1;'')
     = Inr (js ''// \<newline>const a = 1;'')
   \<and> replace_new (commentedPattern [js ''log'']) [] (js ''// console.log('x');\<newline>const a = 1;'')
     = Inr (js ''\<newline>const a = 1;'')
   \<and> removeConsoleLogs [js ''log''] (js ''// console.log('x')\<newline>const a = 1;'')
     = Inr (js ''// const a = 1;'')"
  by code_simp

text \<open>
  C4, at a text that begins with three statements: the three lines are emptied and the
  three empty lines stay at the head of the result, as they do in a text that begins
  with three empty lines.
\<close>

theorem blank_run_at_start_kept:
  "removeConsoleLogs [js ''log'']
       (js ''console.log(1);\<newline>console.log(2);\<newline>console.log(3);\<newline>x'')
     = Inr (js ''\<newline>\<newline>\<newline>x'')
   \<and> removeConsoleLogs [js ''log''] (js ''\<newline>\<newline>\<newline>x'') = Inr (js ''\<newline>\<newline>\<newline>x'')
   \<and> split_lf (js ''\<newline>\<newline>\<newline>x'') = [[], [], [], js ''x'']"
  by code_simp

text \<open>
  C1. Idempotence fails at \<^verbatim>\<open>console.log({});console.log()\<close>: the first run erases
  the second call only, and a second run erases the rest.
\<close>

theorem idempotence_counterexample:
  "removeConsoleLogs [js ''log''] (js ''console.log({});console.log()'')
     = Inr (js ''console.log({});'')
   \<and> removeConsoleLogs [js ''log''] (js ''console.log({});'') = Inr []
   \<and> js ''console.log({});'' \<noteq> []"
  by code_simp

text \<open>
  C2. A text without any call is changed all the same when it has three blank lines in
  a row: the count is 0 and one of the blank lines goes.
\<close>

theorem no_match_unchanged_counterexample:
  "countConsoleLogs [js ''log''] (Inr (js ''a;\<newline>\<newline>\<newline>\<newline>b;'')) = Inr 0
   \<and> removeConsoleLogs [js ''log''] (js ''a;\<newline>\<newline>\<newline>\<newline>b;'') = Inr (js ''a;\<newline>\<newline>\<newline>b;'')
   \<and> js ''a;\<newline>\<newline>\<newline>b;'' \<noteq> js ''a;\<newline>\<newline>\<newline>\<newline>b;''"
  by code_simp


section \<open>The claims about every input\<close>

text \<open>
  C2, as the code has it. For method names without pattern syntax: when the count is 0,
  the five removal passes change nothing and the result is the text after the two
  clean-up substitutions of blank lines only; it is the text itself when, in addition,
  neither clean-up pattern matches in it.
\<close>

theorem no_call_only_normalizes:
  "plain_names M \<and> countConsoleLogs M (Inr T) = Inr 0 \<longrightarrow>
     removeConsoleLogs M T =
       Inr (replace_str blankLinePattern []
              (replace_str blankRunPattern (js ''\<newline>\<newline>\<newline>'') T))
     \<and> (match_all blankRunPattern T = None \<and> match_all blankLinePattern T = None
          \<longrightarrow> removeConsoleLogs M T = Inr T)"
proof
  assume a: "plain_names M \<and> countConsoleLogs M (Inr T) = Inr 0"
  then have "removeConsoleLogs M T = Inr (cleanup T)"
    by (simp add: removeConsoleLogs_no_call)
  then show "removeConsoleLogs M T =
       Inr (replace_str blankLinePattern []
              (replace_str blankRunPattern (js ''\<newline>\<newline>\<newline>'') T))
     \<and> (match_all blankRunPattern T = None \<and> match_all blankLinePattern T = None
          \<longrightarrow> removeConsoleLogs M T = Inr T)"
    by (simp add: cleanup_def replace_str_no_match)
qed

theorem no_call_only_normalizes_witness:
  "plain_names [js ''log'']
   \<and> countConsoleLogs [js ''log''] (Inr (js ''const a = 1;'')) = Inr 0
   \<and> match_all blankRunPattern (js ''const a = 1;'') = None
   \<and> match_all blankLinePattern (js ''const a = 1;'') = None
   \<and> removeConsoleLogs [js ''log''] (js ''const a = 1;'') = Inr (js ''const a = 1;'')"
proof -
  have 0: "plain_names [js ''log'']" by code_simp
  have 1: "countConsoleLogs [js ''log''] (Inr (js ''const a = 1;'')) = Inr 0" by code_simp
  have 2: "match_all blankRunPattern (js ''const a = 1;'') = None" by code_simp
  have 3: "match_all blankLinePattern (js ''const a = 1;'') = None" by code_simp
  from no_call_only_normalizes[of "[js ''log'']" "js ''const a = 1;''"] 0 1 2 3
  have "removeConsoleLogs [js ''log''] (js ''const a = 1;'') = Inr (js ''const a = 1;'')"
    by blast
  with 0 1 2 3 show ?thesis by blast
qed

text \<open>
  C1, as the code has it. Let the first run return \<open>U\<close>. A second run returns \<open>U\<close> again
  exactly when no pass has anything left to erase in \<open>U\<close>: every match in \<open>U\<close> of the
  first, second, fourth and fifth pattern is empty (with method names that are plain
  identifiers a match holds \<^verbatim>\<open>console\<close>, so there is then no match at all), and \<open>U\<close> is
  empty or every match in \<open>U\<close> of the third pattern is empty or holds \<^verbatim>\<open>{\<close> or
  \<^verbatim>\<open>function\<close>. A call that no pattern erases may stay in \<open>U\<close>.
\<close>

theorem second_run_stable_iff:
  assumes "removeConsoleLogs M T = Inr U"
  shows "removeConsoleLogs M U = Inr U \<longleftrightarrow> nothing_to_erase M U"
proof
  assume "removeConsoleLogs M U = Inr U"
  then show "nothing_to_erase M U" by (rule removeConsoleLogs_same_length) simp
next
  assume "nothing_to_erase M U"
  then have "removeConsoleLogs M U = Inr (cleanup U)"
    by (rule removeConsoleLogs_nothing_to_erase)
  moreover from assms obtain Y where "U = cleanup Y" by (rule removeConsoleLogs_Inr)
  then have "cleanup U = U" by (simp add: cleanup_cleanup)
  ultimately show "removeConsoleLogs M U = Inr U" by simp
qed

theorem second_run_stable_iff_witness:
  "removeConsoleLogs [js ''log''] (js ''if (x) console.log(function () {});\<newline>console.log(2);'')
     = Inr (js ''if (x) console.log(function () {});\<newline>'')
   \<and> nothing_to_erase [js ''log''] (js ''if (x) console.log(function () {});\<newline>'')
   \<and> removeConsoleLogs [js ''log''] (js ''if (x) console.log(function () {});\<newline>'')
     = Inr (js ''if (x) console.log(function () {});\<newline>'')"
proof -
  have 1: "removeConsoleLogs [js ''log'']
             (js ''if (x) console.log(function () {});\<newline>console.log(2);'')
           = Inr (js ''if (x) console.log(function () {});\<newline>'')"
    by code_simp
  have 2: "nothing_to_erase [js ''log''] (js ''if (x) console.log(function () {});\<newline>'')"
    by code_simp
  from second_run_stable_iff[OF 1] 2
  have "removeConsoleLogs [js ''log''] (js ''if (x) console.log(function () {});\<newline>'')
          = Inr (js ''if (x) console.log(function () {});\<newline>'')"
    by blast
  with 1 2 show ?thesis by blast
qed

text \<open>
  C7. The loop of the third pattern ends on every text, after at most 5 applications of
  its substitution. With the pattern that \<^verbatim>\<open>new RegExp\<close> returns, it returns the text
  after \<open>n \<le> 5\<close> applications; when it stops before the ceiling, the text it returns is
  a fixpoint of the substitution, and no application before the last one left the text
  unchanged. When \<^verbatim>\<open>new RegExp\<close> throws, the loop ends in its first turn with that
  exception, or at once on the empty text.
\<close>

theorem complexLoop_bounded:
  "(\<exists>res n. complexLoop (Inr re) [] s 0 = Inr (res, n)
      \<and> n \<le> 5
      \<and> passes n re s = Inr res
      \<and> (n < 5 \<longrightarrow> complexPass re res = Inr res)
      \<and> (\<forall>k. Suc k < n \<longrightarrow> passes (Suc k) re s \<noteq> passes k re s))
   \<and> complexLoop (Inl e) [] s 0 = (if s = [] then Inr ([], 0) else Inl e)"
proof
  from complexLoop_general[of re "[]" s 0] obtain res n where
    loop: "complexLoop (Inr re) [] s 0 = Inr (res, n)"
    and bound: "n \<le> maxIterations"
    and iter: "passes n re s = Inr res"
    and stable: "n < maxIterations \<longrightarrow> (if n = 0 then [] = s else complexPass re res = Inr res)"
    and chg: "\<forall>k. Suc k < n \<longrightarrow> passes (Suc k) re s \<noteq> passes k re s"
    by auto
  have "n < 5 \<longrightarrow> complexPass re res = Inr res"
  proof
    assume lt: "n < 5"
    show "complexPass re res = Inr res"
    proof (cases "n = 0")
      case True
      with stable lt iter show ?thesis by (auto simp: maxIterations_def complexPass_Nil)
    next
      case False
      with stable lt show ?thesis by (simp add: maxIterations_def)
    qed
  qed
  with loop bound iter chg show "\<exists>res n. complexLoop (Inr re) [] s 0 = Inr (res, n)
      \<and> n \<le> 5
      \<and> passes n re s = Inr res
      \<and> (n < 5 \<longrightarrow> complexPass re res = Inr res)
      \<and> (\<forall>k. Suc k < n \<longrightarrow> passes (Suc k) re s \<noteq> passes k re s)"
    by (intro exI[of _ res] exI[of _ n]) (simp add: maxIterations_def)
next
  show "complexLoop (Inl e) [] s 0 = (if s = [] then Inr ([], 0) else Inl e)"
    by (subst complexLoop.simps) (simp add: maxIterations_def)
qed

theorem complexLoop_bounded_witness:
  "(case complexPattern [js ''log''] of
      Inl e \<Rightarrow> False
    | Inr re \<Rightarrow>
        complexLoop (Inr re) [] (js ''a;console.log(1)'') 0 = Inr (js ''a;'', 2)
        \<and> (2::nat) < 5
        \<and> complexPass re (js ''a;'') = Inr (js ''a;'')
        \<and> passes 1 re (js ''a;console.log(1)'') \<noteq> passes 0 re (js ''a;console.log(1)''))"
proof -
  obtain re where p: "complexPattern [js ''log''] = Inr re"
    using complexPattern_plain[of "[js ''log'']"] by (simp add: plain_names_def plain_name_def js_def is_syntax_char_def)
  have "complexLoop (complexPattern [js ''log'']) [] (js ''a;console.log(1)'') 0
          = Inr (js ''a;'', 2)"
    by code_simp
  with p have e: "complexLoop (Inr re) [] (js ''a;console.log(1)'') 0 = Inr (js ''a;'', 2)"
    by simp
  from complexLoop_bounded[of re "js ''a;console.log(1)''"] obtain res n where
    loop: "complexLoop (Inr re) [] (js ''a;console.log(1)'') 0 = Inr (res, n)"
    and stable: "n < 5 \<longrightarrow> complexPass re res = Inr res"
    and chg: "\<forall>k. Suc k < n \<longrightarrow> passes (Suc k) re (js ''a;console.log(1)'')
                \<noteq> passes k re (js ''a;console.log(1)'')"
    by blast
  from e loop have res: "res = js ''a;''" and n: "n = 2" by simp_all
  from stable res n have "complexPass re (js ''a;'') = Inr (js ''a;'')" by simp
  moreover from chg n have "passes (Suc 0) re (js ''a;console.log(1)'')
                \<noteq> passes 0 re (js ''a;console.log(1)'')" by simp
  ultimately show ?thesis using e p by simp
qed

text \<open>
  C8. One application of the third pattern's substitution rebuilds the text from the
  pieces of the search, whatever the pattern: a matched candidate that contains \<^verbatim>\<open>{\<close>
  or \<^verbatim>\<open>function\<close> is put back as it was, a matched candidate that contains neither is
  erased, and the code units outside the matches are kept. The pieces, put back
  unchanged, are the input.
\<close>

theorem complexPass_keeps_brace_or_function:
  "complexPass re s =
     Inr (concat (map (\<lambda>p. case p of
                          Keep c \<Rightarrow> [c]
                        | Hit m \<Rightarrow> if str_includes m (js ''{'') \<or> str_includes m (js ''function'')
                                   then m else [])
                   (scan re (None, s))))
   \<and> concat (map piece_text (scan re (None, s))) = s"
  by (simp add: complexPass_eq scan_text)



text \<open>
  C10. Whenever \<^verbatim>\<open>removeConsoleLogs\<close> returns, the text it returns is at most as long as
  the input: every match is replaced by the empty string, by itself or, for a run of
  blank lines of at least 4 code units, by 3 line feeds.
\<close>

theorem removeConsoleLogs_never_longer:
  assumes "removeConsoleLogs M T = Inr U"
  shows "length U \<le> length T"
  using assms by (rule removeConsoleLogs_length)

theorem removeConsoleLogs_never_longer_witness:
  "removeConsoleLogs [js ''log''] (js ''a;\<newline>\<newline>\<newline>\<newline>console.log(1)'') = Inr (js ''a;\<newline>\<newline>\<newline>'')
   \<and> length (js ''a;\<newline>\<newline>\<newline>'') \<le> length (js ''a;\<newline>\<newline>\<newline>\<newline>console.log(1)'')"
proof -
  have 1: "removeConsoleLogs [js ''log''] (js ''a;\<newline>\<newline>\<newline>\<newline>console.log(1)'')
             = Inr (js ''a;\<newline>\<newline>\<newline>'')"
    by code_simp
  from removeConsoleLogs_never_longer[OF 1] 1 show ?thesis by simp
qed

end
